theory Spec2Isabelle
  imports Main "HOL-Library.Word"
begin

unbundle bit_operations_syntax

section \<open>C strings\<close>

text \<open>
  A value of type \<open>string\<close> stands for the bytes a \<open>uschar *\<close> points at: the end of the
  list is where the terminating zero byte sits, so reading past the last element reads 0.
  The comparison functions stop at the first zero byte as the C library does, and only
  the sign of their result is used by the callers.
\<close>

definition NUL :: char where
  "NUL = CHR 0x00"

fun Uhead :: "string \<Rightarrow> int" where
  "Uhead [] = 0"
| "Uhead (c # cs) = int (of_char c :: nat)"

fun Upeek :: "string \<Rightarrow> char" where
  "Upeek [] = NUL"
| "Upeek (c # cs) = c"

definition cstr :: "string \<Rightarrow> string" where
  "cstr s = takeWhile (\<lambda>c. c \<noteq> NUL) s"

definition Ustrlen :: "string \<Rightarrow> int" where
  "Ustrlen s = int (length (cstr s))"


definition Ustrrchr :: "string \<Rightarrow> char \<Rightarrow> nat option" where
  "Ustrrchr s c =
     (if c \<in> set (cstr s)
      then Some (length (cstr s) - 1 - length (takeWhile (\<lambda>x. x \<noteq> c) (rev (cstr s))))
      else None)"

text \<open>The character classes of the C locale, on unsigned bytes.\<close>

definition isdigit :: "char \<Rightarrow> bool" where
  "isdigit c = (48 \<le> (of_char c :: nat) \<and> (of_char c :: nat) \<le> 57)"


definition isspace :: "char \<Rightarrow> bool" where
  "isspace c = (let n = (of_char c :: nat) in n = 32 \<or> (9 \<le> n \<and> n \<le> 13))"

fun Ustrncmp :: "string \<Rightarrow> string \<Rightarrow> nat \<Rightarrow> int" where
  "Ustrncmp [] b n = (if n = 0 then 0 else 0 - Uhead b)"
| "Ustrncmp (x # xs) b n =
     (if n = 0 then 0
      else if Uhead (x # xs) \<noteq> Uhead b then Uhead (x # xs) - Uhead b
      else if Uhead (x # xs) = 0 then 0
      else Ustrncmp xs (tl b) (n - 1))"

fun Ustrcmp :: "string \<Rightarrow> string \<Rightarrow> int" where
  "Ustrcmp [] b = 0 - Uhead b"
| "Ustrcmp (x # xs) b =
     (if Uhead (x # xs) \<noteq> Uhead b then Uhead (x # xs) - Uhead b
      else if Uhead (x # xs) = 0 then 0
      else Ustrcmp xs (tl b))"

text \<open>An \<open>int\<close> length handed to a \<open>size_t\<close> parameter (64 bits).\<close>

definition size_t :: "int \<Rightarrow> nat" where
  "size_t n = nat (n mod 2 ^ 64)"

section \<open>The driver registry\<close>

text \<open>
  \<open>lookup_info\<close> is the driver descriptor of exim's \<open>lookupapi.h\<close>; the fields carry the
  prefix \<open>li_\<close>. A hook is a function pointer and may be null (\<open>None\<close>). The hooks act on
  an outside world \<open>'w\<close> (files, servers, the clock) that the dispatcher never inspects.
  A driver handle is an opaque non-null pointer. The \<open>open\<close> hook yields the handle (or
  null) and the error text it stored, if any; \<open>check\<close> yields its verdict and error text;
  \<open>find\<close> yields a \<open>find_result\<close>: its return code and what it left in \<open>*result\<close>,
  \<open>*errmsg\<close> (\<open>None\<close> when not written) and \<open>*do_cache\<close>, which the caller had set to
  \<open>UINT_MAX\<close>.
\<close>

type_synonym handle = nat

datatype rc = OK | FAIL | DEFER

record find_result =
  fr_rc :: rc
  fr_data :: "string option"
  fr_errmsg :: "string option"
  fr_do_cache :: "32 word"

record 'w lookup_info =
  li_name :: string
  li_type :: nat
  li_open :: "(string option \<Rightarrow> 'w \<Rightarrow> (handle option \<times> string option) \<times> 'w) option"
  li_check :: "(handle \<Rightarrow> string option \<Rightarrow> int \<Rightarrow> int list option \<Rightarrow> int list option \<Rightarrow> 'w
                \<Rightarrow> (bool \<times> string option) \<times> 'w) option"
  li_find :: "(handle option \<Rightarrow> string option \<Rightarrow> string \<Rightarrow> int \<Rightarrow> string option \<Rightarrow> 'w
               \<Rightarrow> find_result \<times> 'w) option"
  li_close :: "(handle option \<Rightarrow> 'w \<Rightarrow> 'w) option"
  li_tidy :: "('w \<Rightarrow> 'w) option"
  li_quote :: "(string \<Rightarrow> string) option"

subsection \<open>search_findtype\<close>

text \<open>
  The binary chop of \<open>search_findtype\<close>. \<open>bot\<close>, \<open>mid\<close> and \<open>top\<close> (here \<open>botx\<close>, \<open>topx\<close>) stay within
  \<open>0 .. lookup_list_count\<close>, so they are naturals here; \<open>lookup_list_count\<close> is the length
  of the table. The result is the returned index (or -1) and the text written to
  \<open>search_error_message\<close>, if any; \<open>name_shown\<close> is what \<open>%.*s\<close> prints of the name, at
  most \<open>len\<close> bytes and none after a zero byte (all of them up to the zero byte for a
  negative \<open>len\<close>).
\<close>

definition name_shown :: "string \<Rightarrow> int \<Rightarrow> string" where
  "name_shown name len = (if len < 0 then cstr name else take (nat len) (cstr name))"

function findtype_loop ::
  "'w lookup_info list \<Rightarrow> string \<Rightarrow> int \<Rightarrow> nat \<Rightarrow> nat \<Rightarrow> int \<times> string option" where
  "findtype_loop lookup_list name len botx topx =
     (if topx > botx then
        (let mid = (topx + botx) div 2;
             c = Ustrncmp name (li_name (lookup_list ! mid)) (size_t len)
         in if c = 0 \<and> Ustrlen (li_name (lookup_list ! mid)) = len then
              (if li_find (lookup_list ! mid) \<noteq> None then (int mid, None)
               else (-1, Some (''lookup type \"'' @ name_shown name len @
                       ''\" is not available (not in the binary - check buildtime LOOKUP configuration)'')))
            else if c > 0 then findtype_loop lookup_list name len (mid + 1) topx
            else findtype_loop lookup_list name len botx mid)
      else (-1, Some (''unknown lookup type \"'' @ name_shown name len @ ''\"'')))"
  by pat_completeness auto
termination
  by (relation "measure (\<lambda>(l, n, len, botx, topx). topx - botx)") auto

definition search_findtype :: "'w lookup_info list \<Rightarrow> string \<Rightarrow> int \<Rightarrow> int \<times> string option" where
  "search_findtype lookup_list name len = findtype_loop lookup_list name len 0 (length lookup_list)"

subsection \<open>search_findtype_partial\<close>

text \<open>
  Modelled from the spec: the style and capability bits of a driver descriptor and the
  star flags. The macros \<open>lookup_querystyle\<close>, \<open>lookup_absfile\<close>, \<open>lookup_absfilequery\<close>,
  \<open>SEARCH_STAR\<close>, \<open>SEARCH_STARAT\<close> and \<open>mac_islookup\<close> are used by search.c and declared
  in exim's macros.h, which is not among the sources; they are distinct single bits, and
  \<open>mac_islookup\<close> tests a bit of the descriptor's type.
\<close>

definition lookup_querystyle :: nat where "lookup_querystyle = 1"
definition lookup_absfile :: nat where "lookup_absfile = 2"
definition lookup_absfilequery :: nat where "lookup_absfilequery = 4"

definition SEARCH_STAR :: int where "SEARCH_STAR = 1"
definition SEARCH_STARAT :: int where "SEARCH_STARAT = 2"






section \<open>The dispatcher's state\<close>

text \<open>
  A tree node is named by its key, and each tree holds at most one node per key, so a
  pointer to a node of \<open>search_tree\<close> is modelled by the node's name and the tree by a map
  from names to the \<open>search_cache\<close> block the node points at. \<open>tree_nodes\<close> lists the names
  in the order \<open>tidyup_subtree\<close> visits them (the shape of the balanced tree is decided
  by exim's tree.c). An item cache is a tree of \<open>expiring_data\<close> blocks by key.
  Times are \<open>time_t\<close> values.
\<close>

record expiring_data =
  expiry :: int
  ed_opts :: "string option"
  ed_data :: "string option"

record search_cache =
  sc_handle :: "handle option"
  sc_search_type :: int
  sc_up :: "string option"
  sc_down :: "string option"
  sc_item_cache :: "string \<rightharpoonup> expiring_data"

text \<open>
  Every call of a driver hook is recorded in \<open>hook_calls\<close>, and the key of every call of
  \<open>internal_search_find\<close> in \<open>lookups\<close> (the line the function prints under
  \<open>DEBUG(D_lookup)\<close>); the other debug output is left out, and so are the store pools.
\<close>

datatype hook_call =
    CallOpen int "string option"
  | CallCheck int handle
  | CallFind int "handle option" "string option" string "string option"
  | CallClose int "handle option"
  | CallTidy nat

record 'w search_state =
  search_tree :: "string \<rightharpoonup> search_cache"
  tree_nodes :: "string list"
  open_top :: "string option"
  open_bot :: "string option"
  open_filecount :: int
  search_error_message :: string
  search_find_defer :: bool
  expand_nstring :: "int \<Rightarrow> string"
  expand_nlength :: "int \<Rightarrow> int"
  log :: "string list"
  hook_calls :: "hook_call list"
  lookups :: "string list"
  world :: 'w

text \<open>
  What search.c takes from the rest of exim: the driver table, the configured
  \<open>lookup_open_max\<close>, the taint and quoting tests, the name of the ACL verb,
  authenticator, transport or router in progress, and the clock \<open>time(NULL)\<close>.
\<close>

record 'w search_env =
  lookup_list :: "'w lookup_info list"
  lookup_open_max :: int
  is_tainted :: "string \<Rightarrow> bool"
  is_quoted_like :: "string \<Rightarrow> int \<Rightarrow> bool"
  current_name :: string
  time_now :: "'w \<Rightarrow> int"

text \<open>
  A call through a null hook, a table index out of range and the use of a node that is
  not in the tree have no defined behaviour in C; the model stops with a fault.
\<close>

datatype fault = NullHook | BadType | BadHandle

definition fbind :: "fault + 'a \<Rightarrow> ('a \<Rightarrow> fault + 'b) \<Rightarrow> fault + 'b" where
  "fbind m f = (case m of Inl e \<Rightarrow> Inl e | Inr x \<Rightarrow> f x)"

definition lookup_entry :: "'w search_env \<Rightarrow> int \<Rightarrow> fault + 'w lookup_info" where
  "lookup_entry env i =
     (if 0 \<le> i \<and> i < int (length (lookup_list env)) then Inr (lookup_list env ! nat i)
      else Inl BadType)"

definition UINT_MAX :: "32 word" where
  "UINT_MAX = - 1"

section \<open>internal_search_find\<close>

text \<open>The test that decides whether the cached entry is used (lines 556 to 560).\<close>

definition cache_usable ::
  "'w search_env \<Rightarrow> 'w \<Rightarrow> expiring_data option \<Rightarrow> string option \<Rightarrow> bool \<Rightarrow> bool" where
  "cache_usable env w t opts cache_rd =
     (case t of
        None \<Rightarrow> False
      | Some e \<Rightarrow>
          (expiry e = 0 \<or> expiry e > time_now env w)
          \<and> (case (opts, ed_opts e) of
                (None, None) \<Rightarrow> True
              | (Some o1, Some o2) \<Rightarrow> Ustrcmp o1 o2 = 0
              | _ \<Rightarrow> False)
          \<and> cache_rd)"

text \<open>
  The write to the log when a tainted query for a query-style driver that has a quote
  hook is not quoted for it (the build without \<open>enforce_quote_protection_notyet\<close>).
\<close>

definition quote_warning ::
  "'w search_env \<Rightarrow> 'w lookup_info \<Rightarrow> int \<Rightarrow> string option \<Rightarrow> string \<Rightarrow> string list" where
  "quote_warning env lk search_type filename keystring =
     (if filename = None \<and> li_quote lk \<noteq> None \<and> is_tainted env keystring
         \<and> \<not> is_quoted_like env keystring search_type
      then [''tainted search query is not properly quoted'' @ current_name env @ '': '' @ cstr keystring]
      else [])"

definition internal_search_find ::
  "'w search_env \<Rightarrow> string \<Rightarrow> string option \<Rightarrow> string \<Rightarrow> bool \<Rightarrow> string option
   \<Rightarrow> 'w search_state \<Rightarrow> fault + (string option \<times> 'w search_state)" where
  "internal_search_find env handle filename keystring cache_rd opts s0 =
     (case search_tree s0 handle of
        None \<Rightarrow> Inl BadHandle
      | Some c \<Rightarrow>
         (let search_type = Uhead handle - 48;
              s = s0\<lparr>search_error_message := [], search_find_defer := False,
                      lookups := lookups s0 @ [cstr keystring]\<rparr>
          in if Upeek keystring = NUL then Inr (None, s)
             else
              (let t = sc_item_cache c (cstr keystring)
               in if cache_usable env (world s) t opts cache_rd
                  then Inr (ed_data (the t), s)
                  else
                    fbind (lookup_entry env search_type) (\<lambda>lk.
                      case li_find lk of
                        None \<Rightarrow> Inl NullHook
                      | Some findhook \<Rightarrow>
                         (let keylength = Ustrlen keystring;
                              (r, w) = findhook (sc_handle c) filename (cstr keystring) keylength opts (world s);
                              s1 = s\<lparr>log := log s @ quote_warning env lk search_type filename keystring,
                                      hook_calls := hook_calls s @
                                        [CallFind search_type (sc_handle c) filename (cstr keystring) opts],
                                      world := w,
                                      search_error_message :=
                                        (case fr_errmsg r of None \<Rightarrow> [] | Some m \<Rightarrow> m)\<rparr>;
                              data = fr_data r;
                              do_cache = fr_do_cache r
                          in if fr_rc r = DEFER then
                               Inr (data, s1\<lparr>search_find_defer := True\<rparr>)
                             else if do_cache \<noteq> 0 then
                               (let e = \<lparr>expiry = (if do_cache = UINT_MAX then 0
                                                    else time_now env w + uint do_cache),
                                         ed_opts = map_option cstr opts, ed_data = data\<rparr>
                                in Inr (data, s1\<lparr>search_tree := (search_tree s1)(handle \<mapsto>
                                      c\<lparr>sc_item_cache := (sc_item_cache c)(cstr keystring \<mapsto> e)\<rparr>)\<rparr>))
                             else
                               Inr (data, s1\<lparr>search_tree := (search_tree s1)(handle \<mapsto>
                                      c\<lparr>sc_item_cache := Map.empty\<rparr>)\<rparr>))))))"

section \<open>search_open and search_tidyup\<close>

text \<open>The key of a handle-cache node: \<open>sprintf(keybuffer, "%c%.254s", search_type + '0', filename)\<close>.\<close>

definition search_key :: "int \<Rightarrow> string option \<Rightarrow> string" where
  "search_key search_type filename =
     cstr (char_of (search_type + 48) # take 254 (case filename of None \<Rightarrow> [] | Some f \<Rightarrow> cstr f))"

text \<open>A write through a node pointer to its \<open>search_cache\<close> block.\<close>

definition modify_node ::
  "string \<Rightarrow> (search_cache \<Rightarrow> search_cache) \<Rightarrow> 'w search_state \<Rightarrow> fault + 'w search_state" where
  "modify_node n f s =
     (case search_tree s n of
        None \<Rightarrow> Inl BadHandle
      | Some c \<Rightarrow> Inr (s\<lparr>search_tree := (search_tree s)(n \<mapsto> f c)\<rparr>))"

text \<open>Closing the least recently used file (lines 439 to 450); \<open>b\<close> is \<open>open_bot\<close>.\<close>

definition close_lru :: "'w search_env \<Rightarrow> string \<Rightarrow> 'w search_state \<Rightarrow> fault + 'w search_state" where
  "close_lru env b s =
     (case search_tree s b of
        None \<Rightarrow> Inl BadHandle
      | Some c \<Rightarrow>
          fbind (case sc_up c of
                   Some u \<Rightarrow> modify_node u (\<lambda>cu. cu\<lparr>sc_down := None\<rparr>) (s\<lparr>open_bot := Some u\<rparr>)
                 | None \<Rightarrow> Inr (s\<lparr>open_bot := None, open_top := None\<rparr>))
            (\<lambda>s1. fbind (lookup_entry env (sc_search_type c))
              (\<lambda>lkc. case li_close lkc of
                   None \<Rightarrow> Inl NullHook
                 | Some closehook \<Rightarrow>
                     fbind (modify_node b (\<lambda>cb. cb\<lparr>sc_handle := None\<rparr>)
                              (s1\<lparr>world := closehook (sc_handle c) (world s1),
                                  hook_calls := hook_calls s1 @
                                    [CallClose (sc_search_type c) (sc_handle c)]\<rparr>))
                       (\<lambda>s2. Inr (s2\<lparr>open_filecount := open_filecount s2 - 1\<rparr>)))))"

text \<open>
  \<open>search_open\<close> in four pieces. \<open>lru_admit\<close> is the test of lines 434 to 450 on the
  number of open files. \<open>call_check\<close> calls the check hook if there is one (lines 461
  to 463). \<open>enter_node\<close> is the end of the function (lines 470 to 490): the count, then
  the node, which is new if \<open>tree_search\<close> had found none; a node found before the open
  is still in the tree, so it is read again here. \<open>search_open\<close> returns the node (its
  name) or null.
\<close>

definition lru_admit :: "'w search_env \<Rightarrow> 'w lookup_info \<Rightarrow> 'w search_state \<Rightarrow> fault + 'w search_state" where
  "lru_admit env lk s =
     (if li_type lk = lookup_absfile \<and> open_filecount s \<ge> lookup_open_max env then
        (case open_bot s of
           None \<Rightarrow> Inr (s\<lparr>log := log s @ [''too many lookups open, but can't find one to close'']\<rparr>)
         | Some b \<Rightarrow> close_lru env b s)
      else Inr s)"

definition call_check ::
  "'w lookup_info \<Rightarrow> int \<Rightarrow> handle \<Rightarrow> string option \<Rightarrow> int \<Rightarrow> int list option \<Rightarrow> int list option
   \<Rightarrow> 'w search_state \<Rightarrow> bool \<times> 'w search_state" where
  "call_check lk search_type hdl filename modemask owners owngroups s =
     (case li_check lk of
        None \<Rightarrow> (True, s)
      | Some checkhook \<Rightarrow>
         (let ((ok, err), w) = checkhook hdl filename modemask owners owngroups (world s)
          in (ok, s\<lparr>world := w,
                    hook_calls := hook_calls s @ [CallCheck search_type hdl],
                    search_error_message :=
                      (case err of None \<Rightarrow> search_error_message s | Some m \<Rightarrow> m)\<rparr>)))"

definition enter_node ::
  "'w lookup_info \<Rightarrow> string \<Rightarrow> int \<Rightarrow> handle \<Rightarrow> 'w search_state \<Rightarrow> 'w search_state" where
  "enter_node lk keybuffer search_type hdl s =
     (let s1 = (if li_type lk = lookup_absfile
                then s\<lparr>open_filecount := open_filecount s + 1\<rparr> else s);
          c = (case search_tree s1 keybuffer of
                 None \<Rightarrow> \<lparr>sc_handle = None, sc_search_type = 0, sc_up = None, sc_down = None,
                          sc_item_cache = Map.empty\<rparr>
               | Some c \<Rightarrow> c);
          nodes = (case search_tree s1 keybuffer of
                     None \<Rightarrow> tree_nodes s1 @ [keybuffer]
                   | Some c \<Rightarrow> tree_nodes s1)
      in s1\<lparr>search_tree := (search_tree s1)(keybuffer \<mapsto>
                c\<lparr>sc_handle := Some hdl, sc_search_type := search_type,
                  sc_up := None, sc_down := None\<rparr>),
            tree_nodes := nodes\<rparr>)"

definition search_open ::
  "'w search_env \<Rightarrow> string option \<Rightarrow> int \<Rightarrow> int \<Rightarrow> int list option \<Rightarrow> int list option
   \<Rightarrow> 'w search_state \<Rightarrow> fault + (string option \<times> 'w search_state)" where
  "search_open env filename search_type modemask owners owngroups s =
     fbind (lookup_entry env search_type) (\<lambda>lk.
       if (case filename of Some f \<Rightarrow> is_tainted env f | None \<Rightarrow> False) then
         Inr (None, s\<lparr>log := log s @ [''Tainted filename for search: '' @ [CHR 0x27] @ cstr (the filename) @ [CHR 0x27]]\<rparr>)
       else
        (let keybuffer = search_key search_type filename
         in if (case search_tree s keybuffer of Some c \<Rightarrow> sc_handle c \<noteq> None | None \<Rightarrow> False)
            then Inr (Some keybuffer, s)
            else
              fbind (lru_admit env lk s)
                (\<lambda>s1. case li_open lk of
                   None \<Rightarrow> Inl NullHook
                 | Some openhook \<Rightarrow>
                    (let ((h, err), w) = openhook filename (world s1);
                         s2 = s1\<lparr>world := w,
                                 hook_calls := hook_calls s1 @ [CallOpen search_type filename],
                                 search_error_message :=
                                   (case err of None \<Rightarrow> search_error_message s1 | Some m \<Rightarrow> m)\<rparr>
                     in case h of
                          None \<Rightarrow> Inr (None, s2)
                        | Some hdl \<Rightarrow>
                           (case call_check lk search_type hdl filename modemask owners owngroups s2 of
                              (ok, s3) \<Rightarrow>
                                if \<not> ok then
                                  (case li_close lk of
                                     None \<Rightarrow> Inl NullHook
                                   | Some closehook \<Rightarrow>
                                       Inr (None, s3\<lparr>world := closehook (Some hdl) (world s3),
                                              hook_calls := hook_calls s3 @
                                                [CallClose search_type (Some hdl)]\<rparr>))
                                else Inr (Some keybuffer,
                                          enter_node lk keybuffer search_type hdl s3))))))"

text \<open>
  \<open>tidyup_subtree\<close>, node by node, and \<open>search_tidyup\<close>. The function visits the left
  subtree, the right subtree and then the node of the balanced tree that
  \<open>tree_insertnode\<close> builds; tree.c is not among the sources, so the nodes are taken here
  in the order of \<open>tree_nodes\<close>, the order of their insertion. The close hooks called
  are the same; the order of the calls is that of the model only.
\<close>

definition tidyup_node :: "'w search_env \<Rightarrow> string \<Rightarrow> 'w search_state \<Rightarrow> fault + 'w search_state" where
  "tidyup_node env n s =
     (case search_tree s n of
        None \<Rightarrow> Inr s
      | Some c \<Rightarrow>
          if sc_handle c \<noteq> None then
            fbind (lookup_entry env (sc_search_type c)) (\<lambda>lk.
              case li_close lk of
                None \<Rightarrow> Inr s
              | Some closehook \<Rightarrow>
                  Inr (s\<lparr>world := closehook (sc_handle c) (world s),
                         hook_calls := hook_calls s @ [CallClose (sc_search_type c) (sc_handle c)]\<rparr>))
          else Inr s)"

fun tidyup_subtree :: "'w search_env \<Rightarrow> string list \<Rightarrow> 'w search_state \<Rightarrow> fault + 'w search_state" where
  "tidyup_subtree env [] s = Inr s"
| "tidyup_subtree env (n # ns) s =
     (case tidyup_node env n s of Inl e \<Rightarrow> Inl e | Inr s1 \<Rightarrow> tidyup_subtree env ns s1)"

fun tidy_drivers :: "'w lookup_info list \<Rightarrow> nat \<Rightarrow> 'w search_state \<Rightarrow> 'w search_state" where
  "tidy_drivers [] i s = s"
| "tidy_drivers (lk # lks) i s =
     tidy_drivers lks (i + 1)
       (case li_tidy lk of
          None \<Rightarrow> s
        | Some tidyhook \<Rightarrow> s\<lparr>world := tidyhook (world s), hook_calls := hook_calls s @ [CallTidy i]\<rparr>)"

definition search_tidyup :: "'w search_env \<Rightarrow> 'w search_state \<Rightarrow> fault + 'w search_state" where
  "search_tidyup env s =
     fbind (tidyup_subtree env (tree_nodes s) s) (\<lambda>s1.
       Inr (tidy_drivers (lookup_list env) 0
              (s1\<lparr>search_tree := Map.empty, tree_nodes := [],
                  open_top := None, open_bot := None, open_filecount := 0\<rparr>)))"

section \<open>search_find\<close>

subsection \<open>The LRU chain\<close>

text \<open>Lines 757 to 784: the handle goes to the top of the chain if its driver uses real files.\<close>

definition lru_promote :: "'w search_env \<Rightarrow> string \<Rightarrow> 'w search_state \<Rightarrow> fault + 'w search_state" where
  "lru_promote env handle s =
     (if open_top s = Some handle then Inr s
      else
        fbind (lookup_entry env (Uhead handle - 48)) (\<lambda>lk.
          if li_type lk \<noteq> lookup_absfile then Inr s
          else
            (case search_tree s handle of
               None \<Rightarrow> Inl BadHandle
             | Some c \<Rightarrow>
                (let up = sc_up c; down = sc_down c
                 in fbind (case up of
                             None \<Rightarrow> Inr s
                           | Some u \<Rightarrow>
                               fbind (modify_node u (\<lambda>cu. cu\<lparr>sc_down := down\<rparr>) s) (\<lambda>s1.
                                 case down of
                                   Some d \<Rightarrow> modify_node d (\<lambda>cd. cd\<lparr>sc_up := Some u\<rparr>) s1
                                 | None \<Rightarrow> Inr (s1\<lparr>open_bot := Some u\<rparr>)))
                      (\<lambda>s2. fbind (modify_node handle
                                      (\<lambda>ch. ch\<lparr>sc_up := None, sc_down := open_top s2\<rparr>) s2)
                         (\<lambda>s3. fbind (case open_top s3 of
                                         None \<Rightarrow> Inr (s3\<lparr>open_bot := Some handle\<rparr>)
                                       | Some tp \<Rightarrow>
                                           modify_node tp (\<lambda>ct. ct\<lparr>sc_up := Some handle\<rparr>) s3)
                            (\<lambda>s4. Inr (s4\<lparr>open_top := Some handle\<rparr>))))))))"

subsection \<open>Options\<close>

text \<open>
  Modelled from the spec: \<open>string_nextinlist\<close>, \<open>string_append_listele\<close> and
  \<open>string_from_gstring\<close> belong to exim's string.c, which is not among the sources. The
  options are split on commas; the elements other than \<open>ret=key\<close> and \<open>cache=no_rd\<close> are
  joined again with commas, and the result is null when none is left.
\<close>

fun split_commas :: "string \<Rightarrow> string list" where
  "split_commas [] = []"
| "split_commas (c # cs) =
     (if c = CHR '','' then [] # split_commas cs
      else (case split_commas cs of [] \<Rightarrow> [[c]] | e # es \<Rightarrow> (c # e) # es))"

fun join_commas :: "string list \<Rightarrow> string option" where
  "join_commas [] = None"
| "join_commas [e] = Some e"
| "join_commas (e # es) = Some (e @ '','' @ the (join_commas es))"

definition parse_opts :: "string option \<Rightarrow> bool \<times> bool \<times> string option" where
  "parse_opts opts =
     (case opts of
        None \<Rightarrow> (False, True, None)
      | Some os \<Rightarrow>
          (let eles = split_commas (cstr os)
           in (''ret=key'' \<in> set eles, ''cache=no_rd'' \<notin> set eles,
               join_commas (filter (\<lambda>e. e \<noteq> ''ret=key'' \<and> e \<noteq> ''cache=no_rd'') eles))))"

subsection \<open>Key buffers\<close>

text \<open>
  \<open>search_find\<close> writes into two buffers: the caller's key (\<open>KEY\<close>) and the block it gets
  from \<open>store_get\<close> for the key with the affix in front (\<open>KEY2\<close>). A buffer is the list of
  its bytes, the terminating zero included; a pointer is a buffer and an offset. Reading
  beyond a buffer gives zero and a write beyond it is dropped; neither happens when
  \<open>affixlen\<close> is at most the length of the affix.
\<close>

datatype bufid = KEY | KEY2

type_synonym memory = "bufid \<Rightarrow> string"
type_synonym ptr = "bufid \<times> nat"

definition str_at :: "memory \<Rightarrow> ptr \<Rightarrow> string" where
  "str_at m p = cstr (drop (snd p) (m (fst p)))"

definition peek :: "memory \<Rightarrow> ptr \<Rightarrow> char" where
  "peek m p = Upeek (drop (snd p) (m (fst p)))"

definition poke :: "memory \<Rightarrow> ptr \<Rightarrow> char \<Rightarrow> memory" where
  "poke m p c = m(fst p := (m (fst p))[snd p := c])"

fun write_bytes :: "memory \<Rightarrow> ptr \<Rightarrow> string \<Rightarrow> memory" where
  "write_bytes m p [] = m"
| "write_bytes m p (c # cs) = write_bytes (poke m p c) (fst p, snd p + 1) cs"

text \<open>The \<open>n\<close> bytes \<open>Ustrncpy\<close> stores: the source, then zeros.\<close>

definition strncpy_bytes :: "string \<Rightarrow> nat \<Rightarrow> string" where
  "strncpy_bytes src n = take n (cstr src @ replicate n NUL)"

subsection \<open>Expansion variables\<close>

text \<open>
  Two consecutive \<open>expand_nstring\<close>/\<open>expand_nlength\<close> slots are set when \<open>expand_setup\<close> is
  not null and \<open>*expand_setup\<close> is not negative. A slot that points at the caller's key
  holds the key's text.
\<close>

definition set_expand ::
  "int option \<Rightarrow> string \<times> int \<Rightarrow> string \<times> int \<Rightarrow> 'w search_state \<Rightarrow> int option \<times> 'w search_state" where
  "set_expand expand_setup v1 v2 s =
     (case expand_setup of
        None \<Rightarrow> (None, s)
      | Some n \<Rightarrow>
          if n \<ge> 0 then
            (Some (n + 2),
             s\<lparr>expand_nstring := (expand_nstring s)(n + 1 := fst v1, n + 2 := fst v2),
               expand_nlength := (expand_nlength s)(n + 1 := snd v1, n + 2 := snd v2)\<rparr>)
          else (Some n, s))"

definition string_copyn :: "string \<Rightarrow> int \<Rightarrow> string" where
  "string_copyn s n = take (nat n) (cstr s)"

subsection \<open>Partial matching\<close>

text \<open>
  The arguments of \<open>search_find\<close> that stay fixed through the attempts; the key is read
  from its buffer each time.
\<close>

record find_args =
  fa_handle :: string
  fa_filename :: "string option"
  fa_partial :: int
  fa_affix :: string
  fa_cache_rd :: bool
  fa_opts :: "string option"

text \<open>
  The loop \<open>while (dotcount-- >= partial)\<close> of lines 840 to 889, in three pieces and the
  loop itself. \<open>b\<close> is the buffer \<open>keystring2\<close> points into and \<open>k3\<close> the offset of
  \<open>keystring3\<close> in it. \<open>next_dot\<close> moves \<open>keystring3\<close> to the next dot or to the end.
  \<open>partial_probe\<close> builds the key of the next lookup (lines 849 to 861) and gives the
  new \<open>affixlen\<close>, buffers and \<open>keystring3\<close>. \<open>partial_hit\<close> sets the expansion variables
  (lines 873 to 885). The result of the loop says whether \<open>search_find\<close> has returned
  null (after a defer), and gives \<open>yield\<close>, \<open>*expand_setup\<close>, the buffers and the state.
\<close>

definition next_dot :: "memory \<Rightarrow> ptr \<Rightarrow> nat" where
  "next_dot mem p =
     snd p + length (takeWhile (\<lambda>c. c \<noteq> NUL \<and> c \<noteq> CHR ''.'') (drop (snd p) (mem (fst p))))"

definition partial_probe :: "find_args \<Rightarrow> bufid \<Rightarrow> nat \<Rightarrow> nat \<Rightarrow> memory \<Rightarrow> nat \<times> memory \<times> nat" where
  "partial_probe a b k3 affixlen mem =
     (if peek mem (b, k3) = NUL then
        (let al = (if affixlen > 1 \<and> Upeek (drop (affixlen - 1) (fa_affix a)) = CHR ''.''
                   then affixlen - 1 else affixlen);
             m1 = write_bytes mem (b, 0) (strncpy_bytes (fa_affix a) al)
         in (al, poke m1 (b, al) NUL, 0))
      else
        (let k = nat (int k3 - (int affixlen - 1))
         in (affixlen,
             (if affixlen > 0 then write_bytes mem (b, k) (strncpy_bytes (fa_affix a) affixlen)
              else mem),
             k)))"

definition partial_hit ::
  "ptr \<Rightarrow> nat \<Rightarrow> int option \<Rightarrow> memory \<Rightarrow> 'w search_state \<Rightarrow> int option \<times> 'w search_state" where
  "partial_hit keystring3 affixlen expand_setup mem s =
     (let fixedlength = Ustrlen (str_at mem keystring3) - int affixlen;
          wildlength = Ustrlen (str_at mem (KEY, 0)) - fixedlength - 1;
          fixedlength = (if fixedlength < 0 then 0 else fixedlength)
      in set_expand expand_setup
           (str_at mem (KEY, 0), wildlength)
           (string_copyn (str_at mem (KEY, nat (wildlength + 1))) fixedlength, fixedlength) s)"

function partial_loop ::
  "'w search_env \<Rightarrow> find_args \<Rightarrow> bufid \<Rightarrow> int \<Rightarrow> nat \<Rightarrow> nat \<Rightarrow> int option \<Rightarrow> memory
   \<Rightarrow> 'w search_state \<Rightarrow> fault + (bool \<times> string option \<times> int option \<times> memory \<times> 'w search_state)" where
  "partial_loop env a b dotcount k3 affixlen expand_setup mem s =
     (if dotcount \<ge> fa_partial a then
        (if peek mem (b, next_dot mem (b, k3)) = NUL \<and> affixlen < 1
         then Inr (False, None, expand_setup, mem, s)
         else
          (case partial_probe a b (next_dot mem (b, k3)) affixlen mem of
             (affixlen1, mem1, k3b) \<Rightarrow>
               (case internal_search_find env (fa_handle a) (fa_filename a) (str_at mem1 (b, k3b))
                       (fa_cache_rd a) (fa_opts a) s of
                  Inl e \<Rightarrow> Inl e
                | Inr (yield, s1) \<Rightarrow>
                    if search_find_defer s1 then Inr (True, None, expand_setup, mem1, s1)
                    else if yield \<noteq> None then
                      (case partial_hit (b, k3b) affixlen1 expand_setup mem1 s1 of
                         (es, s2) \<Rightarrow> Inr (False, yield, es, mem1, s2))
                    else partial_loop env a b (dotcount - 1) (k3b + affixlen1) affixlen1
                           expand_setup mem1 s1)))
      else Inr (False, None, expand_setup, mem, s))"
  by pat_completeness auto
termination
  by (relation "measure (\<lambda>(env, a, b, dotcount, k3, affixlen, es, mem, s). nat (dotcount - fa_partial a + 1))")
     auto

text \<open>
  Lines 812 to 893, entered when the verbatim lookup found nothing and \<open>partial\<close> is
  not negative. The result also carries \<open>set_null_wild\<close>.
\<close>

definition partial_stage ::
  "'w search_env \<Rightarrow> find_args \<Rightarrow> nat \<Rightarrow> int option \<Rightarrow> memory \<Rightarrow> 'w search_state
   \<Rightarrow> fault + (bool \<times> string option \<times> bool \<times> int option \<times> memory \<times> 'w search_state)" where
  "partial_stage env a affixlen expand_setup mem s =
     (let len = nat (Ustrlen (str_at mem (KEY, 0)));
          b = (if affixlen = 0 then KEY else KEY2);
          mem1 = (if affixlen = 0 then mem
                  else write_bytes
                         (write_bytes (mem(KEY2 := replicate (len + affixlen + 1) NUL)) (KEY2, 0)
                            (strncpy_bytes (fa_affix a) affixlen))
                         (KEY2, affixlen) (str_at mem (KEY, 0) @ [NUL]))
      in fbind (if affixlen = 0 then Inr (None, s)
                else internal_search_find env (fa_handle a) (fa_filename a) (str_at mem1 (KEY2, 0))
                       (fa_cache_rd a) (fa_opts a) s)
           (\<lambda>(yield, s1).
              if affixlen \<noteq> 0 \<and> search_find_defer s1 then Inr (True, None, False, expand_setup, mem1, s1)
              else if yield \<noteq> None then Inr (False, yield, True, expand_setup, mem1, s1)
              else
                (let dotcount = int (length (filter (\<lambda>c. c = CHR ''.'') (str_at mem1 (b, affixlen))))
                 in fbind (partial_loop env a b dotcount affixlen affixlen expand_setup mem1 s1)
                      (\<lambda>(ret, yield, es, mem2, s2). Inr (ret, yield, False, es, mem2, s2)))))"

subsection \<open>The defaults\<close>

text \<open>Lines 899 to 923: the \<open>*@\<close> default.\<close>

definition starat_stage ::
  "'w search_env \<Rightarrow> find_args \<Rightarrow> int \<Rightarrow> string option \<Rightarrow> int option \<Rightarrow> memory \<Rightarrow> 'w search_state
   \<Rightarrow> fault + (bool \<times> string option \<times> int option \<times> memory \<times> 'w search_state)" where
  "starat_stage env a starflags yield expand_setup mem s =
     (if yield = None \<and> starflags AND SEARCH_STARAT \<noteq> 0 then
        (case Ustrrchr (str_at mem (KEY, 0)) (CHR ''@'') of
           None \<Rightarrow> Inr (False, yield, expand_setup, mem, s)
         | Some p \<Rightarrow>
             if p > 0 then
               (let atat = p - 1;
                    savechar = peek mem (KEY, atat);
                    mem1 = poke mem (KEY, atat) (CHR ''*'')
                in fbind (internal_search_find env (fa_handle a) (fa_filename a) (str_at mem1 (KEY, atat))
                            (fa_cache_rd a) (fa_opts a) s)
                     (\<lambda>(yield1, s1).
                        let mem2 = poke mem1 (KEY, atat) savechar
                        in if search_find_defer s1 then Inr (True, None, expand_setup, mem2, s1)
                           else if yield1 \<noteq> None then
                             (let (es, s2) = set_expand expand_setup
                                               (str_at mem2 (KEY, 0), int atat + 1)
                                               (str_at mem2 (KEY, 0), 0) s1
                              in Inr (False, yield1, es, mem2, s2))
                           else Inr (False, yield1, expand_setup, mem2, s1)))
             else Inr (False, yield, expand_setup, mem, s))
      else Inr (False, yield, expand_setup, mem, s))"

text \<open>Lines 929 to 942: the \<open>*\<close> default.\<close>

definition star_stage ::
  "'w search_env \<Rightarrow> find_args \<Rightarrow> int \<Rightarrow> string option \<Rightarrow> int option \<Rightarrow> memory \<Rightarrow> 'w search_state
   \<Rightarrow> fault + (string option \<times> int option \<times> 'w search_state)" where
  "star_stage env a starflags yield expand_setup mem s =
     (if yield = None \<and> starflags AND (SEARCH_STAR OR SEARCH_STARAT) \<noteq> 0 then
        fbind (internal_search_find env (fa_handle a) (fa_filename a) ''*'' (fa_cache_rd a) (fa_opts a) s)
          (\<lambda>(yield1, s1).
             if yield1 \<noteq> None then
               (let (es, s2) = set_expand expand_setup
                                 (str_at mem (KEY, 0), Ustrlen (str_at mem (KEY, 0)))
                                 (str_at mem (KEY, 0), 0) s1
                in Inr (yield1, es, s2))
             else Inr (yield1, expand_setup, s1))
      else Inr (yield, expand_setup, s))"

subsection \<open>The function\<close>

text \<open>
  \<open>search_find\<close> returns the answer, and the model adds what the call leaves behind: the
  bytes of the caller's key buffer, \<open>*expand_setup\<close> and the state. The affix is passed
  as a pointer and a length, which is never negative when \<open>partial\<close> is not.
  \<open>search_find_defaults\<close> is the part from line 895 on, entered with the \<open>yield\<close> of the
  verbatim and partial attempts.
\<close>

definition search_find_defaults ::
  "'w search_env \<Rightarrow> find_args \<Rightarrow> int \<Rightarrow> bool \<Rightarrow> bool \<Rightarrow> string option \<Rightarrow> int option \<Rightarrow> memory
   \<Rightarrow> 'w search_state \<Rightarrow> fault + (string option \<times> string \<times> int option \<times> 'w search_state)" where
  "search_find_defaults env a starflags ret_key set_null_wild yield expand_setup mem s =
     fbind (starat_stage env a starflags yield expand_setup mem s)
       (\<lambda>(ret, yield, es, mem4, s4).
          if ret then Inr (None, mem4 KEY, es, s4)
          else
            fbind (star_stage env a starflags yield es mem4 s4)
              (\<lambda>(yield, es, s5).
                 let (es, s6) =
                       (if set_null_wild then
                          set_expand es (str_at mem4 (KEY, 0), 0)
                            (string_copyn (str_at mem4 (KEY, 0)) (Ustrlen (str_at mem4 (KEY, 0))),
                             Ustrlen (str_at mem4 (KEY, 0))) s5
                        else (es, s5));
                     yield = (if yield \<noteq> None \<and> ret_key
                              then Some (str_at mem4 (KEY, 0)) else yield)
                 in Inr (yield, mem4 KEY, es, s6)))"

definition search_find ::
  "'w search_env \<Rightarrow> string \<Rightarrow> string option \<Rightarrow> string \<Rightarrow> int \<Rightarrow> string \<Rightarrow> nat \<Rightarrow> int \<Rightarrow> int option
   \<Rightarrow> string option \<Rightarrow> 'w search_state
   \<Rightarrow> fault + (string option \<times> string \<times> int option \<times> 'w search_state)" where
  "search_find env handle filename keystring partial affix affixlen starflags expand_setup opts s =
     (let (ret_key, cache_rd, opts1) = parse_opts opts;
          a = \<lparr>fa_handle = handle, fa_filename = filename, fa_partial = partial,
               fa_affix = affix, fa_cache_rd = cache_rd, fa_opts = opts1\<rparr>;
          mem = (\<lambda>b. []) (KEY := cstr keystring @ [NUL])
      in fbind (lru_promote env handle s) (\<lambda>s1.
         fbind (internal_search_find env handle filename keystring cache_rd opts1 s1) (\<lambda>(yield, s2).
           if search_find_defer s2 then Inr (None, mem KEY, expand_setup, s2)
           else
             fbind (if yield \<noteq> None then Inr (False, yield, partial \<ge> 0, expand_setup, mem, s2)
                    else if partial \<ge> 0 then partial_stage env a affixlen expand_setup mem s2
                    else Inr (False, yield, False, expand_setup, mem, s2))
               (\<lambda>(ret, yield, set_null_wild, es, mem3, s3).
                  if ret then Inr (None, mem3 KEY, es, s3)
                  else search_find_defaults env a starflags ret_key set_null_wild yield es mem3 s3))))"

section \<open>A small configuration\<close>

text \<open>
  Five drivers in the order of their names; the world is the clock. \<open>lsearch\<close> uses real
  files, answers a few keys, defers on \<open>temp\<close>, gives \<open>ttl\<close> one second to live and
  forbids caching after \<open>upd\<close>; \<open>nisplus\<close> is query-style; \<open>pgsql\<close> is not in the binary.
\<close>

definition ex_find ::
  "handle option \<Rightarrow> string option \<Rightarrow> string \<Rightarrow> int \<Rightarrow> string option \<Rightarrow> nat \<Rightarrow> find_result \<times> nat" where
  "ex_find h f k len opts w =
     (if k = ''foo'' then \<lparr>fr_rc = OK, fr_data = Some ''bar'', fr_errmsg = None, fr_do_cache = UINT_MAX\<rparr>
      else if k = ''*.example.com'' then
        \<lparr>fr_rc = OK, fr_data = Some ''wild'', fr_errmsg = None, fr_do_cache = UINT_MAX\<rparr>
      else if k = ''*@example.com'' then
        \<lparr>fr_rc = OK, fr_data = Some ''atdef'', fr_errmsg = None, fr_do_cache = UINT_MAX\<rparr>
      else if k = ''temp'' then
        \<lparr>fr_rc = DEFER, fr_data = None, fr_errmsg = Some ''try later'', fr_do_cache = UINT_MAX\<rparr>
      else if k = ''ttl'' then
        \<lparr>fr_rc = OK, fr_data = Some ''v1'', fr_errmsg = None, fr_do_cache = 1\<rparr>
      else if k = ''upd'' then
        \<lparr>fr_rc = OK, fr_data = Some ''done'', fr_errmsg = None, fr_do_cache = 0\<rparr>
      else \<lparr>fr_rc = FAIL, fr_data = None, fr_errmsg = None, fr_do_cache = UINT_MAX\<rparr>,
      w)"

definition ex_driver :: "string \<Rightarrow> nat \<Rightarrow> bool \<Rightarrow> nat lookup_info" where
  "ex_driver n ty present =
     \<lparr>li_name = n, li_type = ty,
      li_open = (if present then Some (\<lambda>f w. ((Some 7, None), w)) else None),
      li_check = None,
      li_find = (if present then Some ex_find else None),
      li_close = (if present then Some (\<lambda>h w. w) else None),
      li_tidy = None,
      li_quote = (if ty = lookup_querystyle then Some (\<lambda>s. s) else None)\<rparr>"

definition ex_lookup_list :: "nat lookup_info list" where
  "ex_lookup_list =
     [ex_driver ''dbm'' lookup_absfile True, ex_driver ''lsearch'' lookup_absfile True,
      ex_driver ''nis'' 0 True, ex_driver ''nisplus'' lookup_querystyle True,
      ex_driver ''pgsql'' lookup_querystyle False]"

definition ex_env :: "nat search_env" where
  "ex_env = \<lparr>lookup_list = ex_lookup_list, lookup_open_max = 2, is_tainted = (\<lambda>s. False),
             is_quoted_like = (\<lambda>s t. True), current_name = [], time_now = int\<rparr>"

definition ex_init :: "nat search_state" where
  "ex_init = \<lparr>search_tree = Map.empty, tree_nodes = [], open_top = None, open_bot = None,
              open_filecount = 0, search_error_message = [], search_find_defer = False,
              expand_nstring = (\<lambda>i. []), expand_nlength = (\<lambda>i. 0), log = [],
              hook_calls = [], lookups = [], world = 100\<rparr>"

text \<open>The state after \<open>/a\<close> has been opened with \<open>lsearch\<close> and \<open>foo\<close> looked up in it.\<close>

definition ex_cache :: search_cache where
  "ex_cache = \<lparr>sc_handle = Some 7, sc_search_type = 1, sc_up = None, sc_down = None,
               sc_item_cache = [''foo'' \<mapsto> \<lparr>expiry = 0, ed_opts = None, ed_data = Some ''bar''\<rparr>]\<rparr>"

definition ex_state :: "nat search_state" where
  "ex_state = ex_init\<lparr>search_tree := [''1/a'' \<mapsto> ex_cache], tree_nodes := [''1/a''],
                      open_top := Some ''1/a'', open_bot := Some ''1/a'', open_filecount := 1\<rparr>"

text \<open>The fixed arguments and the key buffer of a lookup of \<open>alice@example.com\<close>.\<close>

definition ex_args :: find_args where
  "ex_args = \<lparr>fa_handle = ''1/a'', fa_filename = Some ''/a'', fa_partial = - 1,
              fa_affix = [], fa_cache_rd = True, fa_opts = None\<rparr>"

definition ex_mem :: memory where
  "ex_mem = (\<lambda>b. []) (KEY := ''alice@example.com'' @ [NUL])"


section \<open>Notions used in the statements\<close>

text \<open>
  The registry is sorted when each name compares below the next one (\<open>Ustrcmp\<close>), and
  its names are C strings: no zero byte inside, and a length an \<open>int\<close> can hold.
\<close>

definition lookup_list_sorted :: "'w lookup_info list \<Rightarrow> bool" where
  "lookup_list_sorted ll =
     sorted_wrt (\<lambda>a b. Ustrcmp (li_name a) (li_name b) < 0) ll"

definition lookup_names_wf :: "'w lookup_info list \<Rightarrow> bool" where
  "lookup_names_wf ll =
     list_all (\<lambda>d. list_all (\<lambda>c. c \<noteq> NUL) (li_name d) \<and> length (li_name d) < 2 ^ 31) ll"




text \<open>
  The conditions for an item-cache hit as the specification words them, and the entry
  the cache write policy asks for.
\<close>

definition item_cache_hit ::
  "'w search_env \<Rightarrow> 'w search_state \<Rightarrow> search_cache \<Rightarrow> string \<Rightarrow> bool \<Rightarrow> string option \<Rightarrow> bool" where
  "item_cache_hit env s c keystring cache_rd opts =
     (\<exists>e. sc_item_cache c (cstr keystring) = Some e
        \<and> (expiry e = 0 \<or> time_now env (world s) < expiry e)
        \<and> (opts = None \<and> ed_opts e = None
            \<or> (\<exists>o1 o2. opts = Some o1 \<and> ed_opts e = Some o2 \<and> cstr o1 = cstr o2))
        \<and> cache_rd)"

definition cache_entry :: "'w search_env \<Rightarrow> 'w \<Rightarrow> find_result \<Rightarrow> string option \<Rightarrow> expiring_data" where
  "cache_entry env w r opts =
     \<lparr>expiry = (if fr_do_cache r = UINT_MAX then 0 else time_now env w + uint (fr_do_cache r)),
      ed_opts = map_option cstr opts, ed_data = fr_data r\<rparr>"

text \<open>The number of dots in a key.\<close>

definition count_dots :: "string \<Rightarrow> int" where
  "count_dots s = int (length (filter (\<lambda>c. c = CHR ''.'') s))"


text \<open>
  The key of the first lookup of the loop that chops leading components off, for the
  affix \<open>A\<close>: \<open>A\<close> followed by what follows the first dot of the key and, for a key with no
  dot, \<open>A\<close> alone, without its last character if that is a dot and not the only one.
\<close>

definition trimmed_key :: "string \<Rightarrow> string \<Rightarrow> string" where
  "trimmed_key A key =
     (if CHR ''.'' \<in> set key then A @ tl (dropWhile (\<lambda>c. c \<noteq> CHR ''.'') key)
      else if 1 < length A \<and> last A = CHR ''.'' then butlast A else A)"

section \<open>The chain of open files\<close>

text \<open>
  The files held open form a chain from \<open>open_top\<close> down to \<open>open_bot\<close> through the \<open>up\<close>
  and \<open>down\<close> pointers of the slots. \<open>dchl L prev xs nxt\<close> says that the slots \<open>xs\<close> are
  linked in this order, the first one up to \<open>prev\<close> and the last one down to \<open>nxt\<close>, where
  \<open>L\<close> gives the two pointers of each slot; \<open>lru_chain s xs\<close> says that the chain of the
  state \<open>s\<close> is \<open>xs\<close>, most recently used first.
\<close>

fun hdopt :: "'a list \<Rightarrow> 'a option" where
  "hdopt [] = None"
| "hdopt (x # xs) = Some x"

definition lastopt :: "'a list \<Rightarrow> 'a option" where
  "lastopt xs = (if xs = [] then None else Some (last xs))"

fun orelse :: "'a option \<Rightarrow> 'a option \<Rightarrow> 'a option" where
  "orelse None d = d"
| "orelse (Some x) d = Some x"

definition links :: "search_cache \<Rightarrow> string option \<times> string option" where
  "links c = (sc_up c, sc_down c)"

type_synonym lmap = "string \<rightharpoonup> (string option \<times> string option)"

definition lmap :: "(string \<rightharpoonup> search_cache) \<Rightarrow> lmap" where
  "lmap t = (\<lambda>x. map_option links (t x))"

fun dchl :: "lmap \<Rightarrow> string option \<Rightarrow> string list \<Rightarrow> string option \<Rightarrow> bool" where
  "dchl L prev [] nxt = True"
| "dchl L prev (x # xs) nxt = (L x = Some (prev, orelse (hdopt xs) nxt) \<and> dchl L (Some x) xs nxt)"

definition set_up :: "lmap \<Rightarrow> string \<Rightarrow> string option \<Rightarrow> lmap" where
  "set_up L n u = L(n \<mapsto> (u, snd (the (L n))))"

definition set_down :: "lmap \<Rightarrow> string \<Rightarrow> string option \<Rightarrow> lmap" where
  "set_down L n d = L(n \<mapsto> (fst (the (L n)), d))"

definition lru_chain :: "'w search_state \<Rightarrow> string list \<Rightarrow> bool" where
  "lru_chain s xs \<longleftrightarrow>
     distinct xs \<and> dchl (lmap (search_tree s)) None xs None \<and>
     open_top s = hdopt xs \<and> open_bot s = lastopt xs"

text \<open>
  Two relations between states. \<open>lru_same\<close>: the chain, the count and the handle, type
  and pointers of every slot are the same (a lookup changes item caches only).
  \<open>relinked\<close>: the handle, type and item cache of every slot are the same (a promotion
  changes pointers only).
\<close>

definition skel :: "search_cache \<Rightarrow> handle option \<times> int \<times> string option \<times> string option" where
  "skel c = (sc_handle c, sc_search_type c, sc_up c, sc_down c)"

definition lru_same :: "'w search_state \<Rightarrow> 'w search_state \<Rightarrow> bool" where
  "lru_same s s' \<longleftrightarrow>
     open_top s' = open_top s \<and> open_bot s' = open_bot s \<and> open_filecount s' = open_filecount s \<and>
     tree_nodes s' = tree_nodes s \<and>
     (\<forall>n. map_option skel (search_tree s' n) = map_option skel (search_tree s n))"

definition payload :: "search_cache \<Rightarrow> handle option \<times> int \<times> (string \<rightharpoonup> expiring_data)" where
  "payload c = (sc_handle c, sc_search_type c, sc_item_cache c)"

definition relinked :: "'w search_state \<Rightarrow> 'w search_state \<Rightarrow> bool" where
  "relinked s s' \<longleftrightarrow>
     (\<forall>n. map_option payload (search_tree s' n) = map_option payload (search_tree s n)) \<and>
     open_filecount s' = open_filecount s \<and> tree_nodes s' = tree_nodes s \<and>
     hook_calls s' = hook_calls s"

text \<open>
  A slot is open when it holds a handle; it is a live file when, besides, its driver
  uses real files.
\<close>

definition file_backed :: "'w search_env \<Rightarrow> int \<Rightarrow> bool" where
  "file_backed env search_type =
     (case lookup_entry env search_type of Inr lk \<Rightarrow> li_type lk = lookup_absfile | Inl e \<Rightarrow> False)"

definition node_open :: "'w search_state \<Rightarrow> string \<Rightarrow> bool" where
  "node_open s n = (case search_tree s n of Some c \<Rightarrow> sc_handle c \<noteq> None | None \<Rightarrow> False)"

definition live_file :: "'w search_env \<Rightarrow> 'w search_state \<Rightarrow> string \<Rightarrow> bool" where
  "live_file env s n =
     (case search_tree s n of
        None \<Rightarrow> False
      | Some c \<Rightarrow> sc_handle c \<noteq> None \<and> file_backed env (sc_search_type c))"

text \<open>
  The invariant of the module. The chain is \<open>xs\<close>; the type of a slot is the one its
  name starts with; the live files are the slots of the chain and, between a
  \<open>search_open\<close> and the \<open>search_find\<close> that follows it, the slot \<open>pend\<close> just opened,
  which is counted but not yet chained; the count is within the limit.
\<close>

definition lru_inv :: "'w search_env \<Rightarrow> 'w search_state \<Rightarrow> string list \<Rightarrow> string option \<Rightarrow> bool" where
  "lru_inv env s xs pend \<longleftrightarrow>
     lru_chain s xs \<and>
     (\<forall>n c. search_tree s n = Some c \<longrightarrow> sc_search_type c = Uhead n - 48) \<and>
     (\<forall>n. live_file env s n \<longleftrightarrow> n \<in> set xs \<or> pend = Some n) \<and>
     (\<forall>n. pend = Some n \<longrightarrow> n \<notin> set xs \<and> (\<exists>c. search_tree s n = Some c \<and> sc_up c = None)) \<and>
     open_filecount s = int (length xs) + (if pend = None then 0 else 1) \<and>
     open_filecount s \<le> lookup_open_max env"

text \<open>
  The callers of the module look a key up by \<open>search_open\<close> followed, when it returns a
  handle, by \<open>search_find\<close> on that handle; \<open>search_tidyup\<close> ends a series of lookups.
  \<open>run\<close> is a sequence of such calls, stopping at the first fault.
\<close>

record lookup_req =
  lq_filename :: "string option"
  lq_search_type :: int
  lq_modemask :: int
  lq_owners :: "int list option"
  lq_owngroups :: "int list option"
  lq_keystring :: string
  lq_partial :: int
  lq_affix :: string
  lq_affixlen :: nat
  lq_starflags :: int
  lq_expand_setup :: "int option"
  lq_opts :: "string option"

definition lookup_call :: "'w search_env \<Rightarrow> lookup_req \<Rightarrow> 'w search_state \<Rightarrow> fault + 'w search_state" where
  "lookup_call env q s =
     fbind (search_open env (lq_filename q) (lq_search_type q) (lq_modemask q) (lq_owners q)
              (lq_owngroups q) s)
       (\<lambda>(r, s1). case r of
            None \<Rightarrow> Inr s1
          | Some h \<Rightarrow>
              fbind (search_find env h (lq_filename q) (lq_keystring q) (lq_partial q) (lq_affix q)
                       (lq_affixlen q) (lq_starflags q) (lq_expand_setup q) (lq_opts q) s1)
                (\<lambda>(y, kb, es, s2). Inr s2))"

datatype call = Lookup lookup_req | Tidyup

fun run :: "'w search_env \<Rightarrow> call list \<Rightarrow> 'w search_state \<Rightarrow> fault + 'w search_state" where
  "run env [] s = Inr s"
| "run env (Lookup q # cs) s = fbind (lookup_call env q s) (run env cs)"
| "run env (Tidyup # cs) s = fbind (search_tidyup env s) (run env cs)"

text \<open>The state of the module at the start of the process and after \<open>search_tidyup\<close>.\<close>

definition no_lookups_open :: "'w search_state \<Rightarrow> bool" where
  "no_lookups_open s \<longleftrightarrow>
     search_tree s = Map.empty \<and> open_top s = None \<and> open_bot s = None \<and> open_filecount s = 0"

text \<open>
  \<open>search_open\<close> from \<open>s\<close> to \<open>s1\<close> has closed the file at the bottom of the chain before
  it opened its own: the two hook calls that follow those of \<open>s\<close> are the close of the
  handle of \<open>open_bot\<close> and the open.
\<close>

definition closes_bottom_first :: "'w search_state \<Rightarrow> int \<Rightarrow> string option \<Rightarrow> 'w search_state \<Rightarrow> bool" where
  "closes_bottom_first s st fn s1 =
     (case open_bot s of
        None \<Rightarrow> False
      | Some b \<Rightarrow>
          (case search_tree s b of
             None \<Rightarrow> False
           | Some c \<Rightarrow>
               sc_handle c \<noteq> None \<and>
               take (length (hook_calls s) + 2) (hook_calls s1) =
                 hook_calls s @ [CallClose (sc_search_type c) (sc_handle c), CallOpen st fn]))"

text \<open>
  Lookups of the small configuration, whose limit is two open files: a plain lookup of
  \<open>k\<close> in the \<open>lsearch\<close> file \<open>f\<close>; the state after \<open>/a\<close> and \<open>/b\<close> have been looked up; the
  state after a \<open>search_open\<close> and after a \<open>search_find\<close>.
\<close>

definition ex_req :: "string \<Rightarrow> string \<Rightarrow> lookup_req" where
  "ex_req f k = \<lparr>lq_filename = Some f, lq_search_type = 1, lq_modemask = 0, lq_owners = None,
                 lq_owngroups = None, lq_keystring = k, lq_partial = - 1, lq_affix = [],
                 lq_affixlen = 0, lq_starflags = 0, lq_expand_setup = None, lq_opts = None\<rparr>"

definition ex_two :: "nat search_state" where
  "ex_two = projr (run ex_env [Lookup (ex_req ''/a'' ''foo''), Lookup (ex_req ''/b'' ''foo'')] ex_init)"

definition ex_opened :: "string \<Rightarrow> nat search_state \<Rightarrow> nat search_state" where
  "ex_opened f s = snd (projr (search_open ex_env (Some f) 1 0 None None s))"

definition ex_found :: "string \<Rightarrow> string \<Rightarrow> string \<Rightarrow> nat search_state \<Rightarrow> nat search_state" where
  "ex_found h f k s =
     snd (snd (snd (projr (search_find ex_env h (Some f) k (- 1) [] 0 0 None None s))))"

section \<open>Facts about C strings\<close>

lemma of_char_zero_iff: "(of_char c :: nat) = 0 \<longleftrightarrow> c = NUL"
  using of_char_eq_iff[of c "CHR 0x00", where ?'a = nat] by (simp add: NUL_def)

lemma of_char_pos_iff: "0 < (of_char c :: nat) \<longleftrightarrow> c \<noteq> NUL"
  using of_char_zero_iff[of c] by auto

lemma Uhead_Cons_zero_iff: "Uhead (c # cs) = 0 \<longleftrightarrow> c = NUL"
  by (simp add: of_char_zero_iff)

lemma Ustrlen_nonul: "NUL \<notin> set s \<Longrightarrow> Ustrlen s = int (length s)"
proof -
  assume "NUL \<notin> set s"
  then have eq: "takeWhile (\<lambda>c. c \<noteq> NUL) s = s" by (intro takeWhile_eq_all_conv[THEN iffD2]) auto
  show ?thesis unfolding Ustrlen_def cstr_def eq by (rule refl)
qed

lemma Uhead_zero_iff: "Uhead s = 0 \<longleftrightarrow> cstr s = []"
  by (cases s) (auto simp: of_char_zero_iff cstr_def)

lemma Ustrcmp_zero_iff: "Ustrcmp a b = 0 \<longleftrightarrow> cstr a = cstr b"
proof (induction a arbitrary: b)
  case Nil
  show ?case using Uhead_zero_iff[of b] by (auto simp: cstr_def)
next
  case (Cons x xs)
  show ?case
  proof (cases b)
    case Nil
    then show ?thesis by (auto simp: cstr_def of_char_zero_iff)
  next
    case (Cons y ys)
    with Cons.IH[of ys] show ?thesis
      by (auto simp: cstr_def of_char_zero_iff)
  qed
qed

lemma Ustrncmp_take: "Ustrncmp a b n = Ustrncmp (take n a) b n"
proof (induction a arbitrary: b n)
  case Nil show ?case by simp
next
  case (Cons x xs)
  show ?case
  proof (cases n)
    case 0 then show ?thesis by simp
  next
    case (Suc m)
    then show ?thesis using Cons.IH[of "tl b" m] by simp
  qed
qed

lemma Ustrncmp_zero_exact:
  "NUL \<notin> set t \<Longrightarrow> Ustrncmp a t (length t) = 0 \<Longrightarrow> take (length t) a = t"
proof (induction t arbitrary: a)
  case Nil show ?case by simp
next
  case (Cons y ys)
  from Cons.prems(1) have y: "y \<noteq> NUL" and ys: "NUL \<notin> set ys" by auto
  from y have hy: "Uhead (y # ys) \<noteq> 0" by (simp add: of_char_zero_iff)
  show ?case
  proof (cases a)
    case Nil
    with Cons.prems(2) hy show ?thesis by (simp split: if_splits)
  next
    case (Cons x xs)
    with Cons.prems(2) hy have "x = y" and "Ustrncmp xs ys (length ys) = 0"
      by (auto split: if_splits)
    with Cons.IH[OF ys, of xs] Cons show ?thesis by simp
  qed
qed

lemma Ustrncmp_refl: "Ustrncmp t t (length t) = 0"
  by (induction t) auto

lemma Ustrncmp_after:
  "NUL \<notin> set t \<Longrightarrow> NUL \<notin> set s \<Longrightarrow> Ustrcmp s t < 0 \<Longrightarrow> Ustrncmp t s (length t) > 0"
proof (induction s arbitrary: t)
  case Nil
  then show ?case by (cases t) (auto simp: of_char_zero_iff of_char_pos_iff)
next
  case (Cons x xs)
  show ?case
  proof (cases t)
    case Nil with Cons.prems show ?thesis by (auto simp: of_char_zero_iff of_char_pos_iff)
  next
    case (Cons y ys)
    with Cons.prems Cons.IH[of ys] show ?thesis
      by (auto simp: of_char_zero_iff of_char_pos_iff split: if_splits)
  qed
qed

lemma Ustrncmp_before:
  "NUL \<notin> set t \<Longrightarrow> NUL \<notin> set s \<Longrightarrow> Ustrcmp t s < 0 \<Longrightarrow>
   Ustrncmp t s (length t) \<le> 0 \<and> (Ustrncmp t s (length t) = 0 \<longrightarrow> length s \<noteq> length t)"
proof (induction t arbitrary: s)
  case Nil
  then show ?case by (cases s) (auto simp: of_char_zero_iff of_char_pos_iff)
next
  case (Cons y ys)
  show ?case
  proof (cases s)
    case Nil with Cons.prems show ?thesis by (auto simp: of_char_zero_iff of_char_pos_iff)
  next
    case (Cons x xs)
    with Cons.prems Cons.IH[of xs] show ?thesis
      by (auto simp: of_char_zero_iff of_char_pos_iff split: if_splits)
  qed
qed


section \<open>The registry search\<close>

declare findtype_loop.simps [simp del]

lemma size_t_small: "0 \<le> n \<Longrightarrow> n < 2 ^ 31 \<Longrightarrow> size_t n = nat n"
  by (simp add: size_t_def)

lemma wf_nth:
  "lookup_names_wf ll \<Longrightarrow> i < length ll \<Longrightarrow>
   NUL \<notin> set (li_name (ll ! i)) \<and> length (li_name (ll ! i)) < 2 ^ 31"
  by (auto simp: lookup_names_wf_def list_all_length in_set_conv_nth)

lemma findtype_loop_sound:
  "lookup_names_wf ll \<Longrightarrow> topx \<le> length ll \<Longrightarrow>
   fst (findtype_loop ll name len botx topx) = i \<Longrightarrow> 0 \<le> i \<Longrightarrow>
   nat i < length ll \<and> li_name (ll ! nat i) = take (nat len) name \<and>
   int (length (li_name (ll ! nat i))) = len \<and> li_find (ll ! nat i) \<noteq> None"
proof (induction ll name len botx topx rule: findtype_loop.induct)
  case (1 ll name len botx topx)
  show ?case
  proof (cases "topx > botx")
    case False
    with "1.prems"(3,4) show ?thesis by (subst (asm) findtype_loop.simps) simp
  next
    case True
    define mid where "mid = (topx + botx) div 2"
    define c where "c = Ustrncmp name (li_name (ll ! mid)) (size_t len)"
    from True "1.prems"(2) have midlt: "mid < length ll" and midtop: "mid < topx"
      by (auto simp: mid_def)
    note wf = wf_nth[OF "1.prems"(1) midlt]
    show ?thesis
    proof (cases "c = 0 \<and> Ustrlen (li_name (ll ! mid)) = len")
      case hit: True
      with wf have len: "len = int (length (li_name (ll ! mid)))"
        by (simp add: Ustrlen_nonul)
      with wf have st: "size_t len = length (li_name (ll ! mid))"
        by (simp add: size_t_small)
      from hit st have "Ustrncmp name (li_name (ll ! mid)) (length (li_name (ll ! mid))) = 0"
        by (simp add: c_def)
      from Ustrncmp_zero_exact[OF _ this] wf
      have tk: "take (length (li_name (ll ! mid))) name = li_name (ll ! mid)" by simp
      from "1.prems"(3,4) True hit have "li_find (ll ! mid) \<noteq> None \<and> i = int mid"
        by (subst (asm) findtype_loop.simps) (auto simp: mid_def c_def Let_def split: if_splits)
      with midlt tk len show ?thesis by simp
    next
      case miss: False
      show ?thesis
      proof (cases "c > 0")
        case True
        with miss \<open>topx > botx\<close> "1.prems"(3)
        have rec: "fst (findtype_loop ll name len (mid + 1) topx) = i"
          by (subst (asm) findtype_loop.simps) (auto simp: mid_def c_def Let_def)
        from "1.IH"(1)[OF \<open>topx > botx\<close> mid_def c_def miss True "1.prems"(1,2) rec "1.prems"(4)]
        show ?thesis .
      next
        case False
        with miss \<open>topx > botx\<close> "1.prems"(3)
        have rec: "fst (findtype_loop ll name len botx mid) = i"
          by (subst (asm) findtype_loop.simps) (auto simp: mid_def c_def Let_def)
        from midlt have "mid \<le> length ll" by simp
        from "1.IH"(2)[OF \<open>topx > botx\<close> mid_def c_def miss False "1.prems"(1) this rec "1.prems"(4)]
        show ?thesis .
      qed
    qed
  qed
qed


lemma sorted_nth_less:
  "lookup_list_sorted ll \<Longrightarrow> i < j \<Longrightarrow> j < length ll \<Longrightarrow>
   Ustrcmp (li_name (ll ! i)) (li_name (ll ! j)) < 0"
  by (simp add: lookup_list_sorted_def sorted_wrt_iff_nth_less)

lemma findtype_loop_complete:
  "lookup_list_sorted ll \<Longrightarrow> lookup_names_wf ll \<Longrightarrow> i < length ll \<Longrightarrow>
   li_name (ll ! i) = take (nat len) name \<Longrightarrow> int (length (li_name (ll ! i))) = len \<Longrightarrow>
   botx \<le> i \<Longrightarrow> i < topx \<Longrightarrow> topx \<le> length ll \<Longrightarrow>
    fst (findtype_loop ll name len botx topx) = (if li_find (ll ! i) \<noteq> None then int i else - 1)"
proof (induction ll name len botx topx rule: findtype_loop.induct)
  case (1 ll name len botx topx)
  define mid where "mid = (topx + botx) div 2"
  define c where "c = Ustrncmp name (li_name (ll ! mid)) (size_t len)"
  define tgt where "tgt = li_name (ll ! i)"
  from "1.prems" have lt: "topx > botx" by simp
  from "1.prems" have midlt: "mid < length ll" and midtop: "mid < topx" and botmid: "botx \<le> mid"
    by (auto simp: mid_def)
  note wfm = wf_nth[OF "1.prems"(2) midlt]
  note wfi = wf_nth[OF "1.prems"(2) "1.prems"(3)]
  from wfi "1.prems"(5) have st: "size_t len = length tgt"
    by (auto simp: size_t_small tgt_def)
  from "1.prems"(4,5) have tk: "take (length tgt) name = tgt"
    by (auto simp: tgt_def)
  have c_eq: "c = Ustrncmp tgt (li_name (ll ! mid)) (length tgt)"
    unfolding c_def st by (subst Ustrncmp_take) (simp add: tk)
  consider (eq) "mid = i" | (less) "mid < i" | (greater) "i < mid" by linarith
  then show ?case
  proof cases
    case eq
    then have "c = 0" by (simp add: c_eq tgt_def Ustrncmp_refl)
    moreover from eq wfi "1.prems"(5) have "Ustrlen (li_name (ll ! mid)) = len"
      by (simp add: Ustrlen_nonul)
    ultimately have "fst (findtype_loop ll name len botx topx) =
        (if li_find (ll ! mid) \<noteq> None then int mid else - 1)" using lt
      by (subst findtype_loop.simps) (simp add: mid_def[symmetric] c_def[symmetric] Let_def)
    with eq show ?thesis by simp
  next
    case less
    from sorted_nth_less[OF "1.prems"(1) less "1.prems"(3)]
    have "Ustrcmp (li_name (ll ! mid)) tgt < 0" by (simp add: tgt_def)
    from Ustrncmp_after[OF _ _ this] wfm wfi have cpos: "c > 0" by (simp add: c_eq tgt_def)
    then have miss: "\<not> (c = 0 \<and> Ustrlen (li_name (ll ! mid)) = len)" by simp
    from less have b: "mid + 1 \<le> i" by simp
    have "fst (findtype_loop ll name len botx topx) = fst (findtype_loop ll name len (mid + 1) topx)"
      using lt cpos by (subst findtype_loop.simps) (simp add: mid_def[symmetric] c_def[symmetric] Let_def)
    also have "\<dots> = (if li_find (ll ! i) \<noteq> None then int i else - 1)"
      by (rule "1.IH"(1)[OF lt mid_def c_def miss cpos "1.prems"(1-5) b "1.prems"(7,8)])
    finally show ?thesis .
  next
    case greater
    from sorted_nth_less[OF "1.prems"(1) greater midlt]
    have "Ustrcmp tgt (li_name (ll ! mid)) < 0" by (simp add: tgt_def)
    from Ustrncmp_before[OF _ _ this] wfm wfi
    have cle: "c \<le> 0" and cz: "c = 0 \<longrightarrow> length (li_name (ll ! mid)) \<noteq> length tgt"
      by (simp_all add: c_eq tgt_def)
    from cz wfm "1.prems"(5) have miss: "\<not> (c = 0 \<and> Ustrlen (li_name (ll ! mid)) = len)"
      by (auto simp: Ustrlen_nonul tgt_def)
    from cle have npos: "\<not> c > 0" by simp
    from midlt have m: "mid \<le> length ll" by simp
    have "fst (findtype_loop ll name len botx topx) = fst (findtype_loop ll name len botx mid)"
      using lt miss npos by (subst findtype_loop.simps) (auto simp: mid_def[symmetric] c_def[symmetric] Let_def)
    also have "\<dots> = (if li_find (ll ! i) \<noteq> None then int i else - 1)"
      by (rule "1.IH"(2)[OF lt mid_def c_def miss npos "1.prems"(1-6) greater m])
    finally show ?thesis .
  qed
qed


section \<open>The small configuration\<close>

lemma ex_sorted: "lookup_list_sorted ex_lookup_list"
  by (simp add: lookup_list_sorted_def ex_lookup_list_def ex_driver_def)

lemma ex_names_wf: "lookup_names_wf ex_lookup_list"
  by (simp add: lookup_names_wf_def ex_lookup_list_def ex_driver_def NUL_def)




lemma ex_tree: "search_tree ex_state ''1/a'' = Some ex_cache"
  by (simp add: ex_state_def)

lemma ex_entry: "lookup_entry ex_env (Uhead ''1/a'' - 48) = Inr (ex_driver ''lsearch'' lookup_absfile True)"
  by (simp add: lookup_entry_def ex_env_def ex_lookup_list_def)

lemma ex_hook: "li_find (ex_driver ''lsearch'' lookup_absfile True) = Some ex_find"
  by (simp add: ex_driver_def)

lemma ex_hit_foo: "item_cache_hit ex_env ex_state ex_cache ''foo'' True None"
  by (simp add: item_cache_hit_def ex_cache_def cstr_def NUL_def)

lemma ex_miss_ttl: "\<not> item_cache_hit ex_env ex_state ex_cache ''ttl'' True None"
  by (simp add: item_cache_hit_def ex_cache_def cstr_def NUL_def)

lemma ex_find_ttl:
  "ex_find (sc_handle ex_cache) (Some ''/a'') (cstr ''ttl'') (Ustrlen ''ttl'') None (world ex_state) =
   (\<lparr>fr_rc = OK, fr_data = Some ''v1'', fr_errmsg = None, fr_do_cache = 1\<rparr>, 100)"
  by (simp add: ex_find_def cstr_def NUL_def ex_state_def ex_init_def)

lemma ex_find_upd:
  "ex_find (sc_handle ex_cache) (Some ''/a'') (cstr ''upd'') (Ustrlen ''upd'') None (world ex_state) =
   (\<lparr>fr_rc = OK, fr_data = Some ''done'', fr_errmsg = None, fr_do_cache = 0\<rparr>, 100)"
  by (simp add: ex_find_def cstr_def NUL_def ex_state_def ex_init_def)

lemma ex_miss_upd: "\<not> item_cache_hit ex_env ex_state ex_cache ''upd'' True None"
  by (simp add: item_cache_hit_def ex_cache_def cstr_def NUL_def)




text \<open>
  Claim C4. On a sorted registry, \<open>search_findtype\<close> returns the non-negative index \<open>i\<close>
  exactly when the driver at position \<open>i\<close> has the name that the first \<open>len\<close> bytes of
  \<open>name\<close> spell (same bytes, same length) and has a find hook. A name that is a proper
  prefix of a registered one, or has a registered one as a proper prefix, therefore
  resolves to the exact match if there is one and fails otherwise.
\<close>

theorem search_findtype_exact:
  assumes "lookup_list_sorted ll" and "lookup_names_wf ll"
  shows "(fst (search_findtype ll name len) = i \<and> 0 \<le> i) \<longleftrightarrow>
         (0 \<le> i \<and> nat i < length ll \<and>
          li_name (ll ! nat i) = take (nat len) name \<and>
          int (length (li_name (ll ! nat i))) = len \<and>
          li_find (ll ! nat i) \<noteq> None)"
proof
  assume "fst (search_findtype ll name len) = i \<and> 0 \<le> i"
  then have "fst (findtype_loop ll name len 0 (length ll)) = i" and "0 \<le> i"
    by (simp_all add: search_findtype_def)
  from findtype_loop_sound[OF assms(2) order_refl this] this(2)
  show "0 \<le> i \<and> nat i < length ll \<and>
          li_name (ll ! nat i) = take (nat len) name \<and>
          int (length (li_name (ll ! nat i))) = len \<and>
          li_find (ll ! nat i) \<noteq> None"
    by blast
next
  assume r: "0 \<le> i \<and> nat i < length ll \<and>
          li_name (ll ! nat i) = take (nat len) name \<and>
          int (length (li_name (ll ! nat i))) = len \<and>
          li_find (ll ! nat i) \<noteq> None"
  then have i: "nat i < length ll"
    and nm: "li_name (ll ! nat i) = take (nat len) name"
    and ln: "int (length (li_name (ll ! nat i))) = len"
    and fp: "li_find (ll ! nat i) \<noteq> None" by blast+
  from findtype_loop_complete[OF assms i nm ln le0 i order_refl] fp
  have "fst (findtype_loop ll name len 0 (length ll)) = int (nat i)"
    by simp
  with r show "fst (search_findtype ll name len) = i \<and> 0 \<le> i"
    by (simp add: search_findtype_def)
qed

theorem search_findtype_exact_witness:
  "lookup_list_sorted ex_lookup_list \<and> lookup_names_wf ex_lookup_list \<and>
   fst (search_findtype ex_lookup_list ''nis*@'' 3) = 2 \<and>
   li_name (ex_lookup_list ! 2) = ''nis'' \<and> li_name (ex_lookup_list ! 3) = ''nisplus''"
  using search_findtype_exact[OF ex_sorted ex_names_wf, of "''nis*@''" 3 2] ex_sorted ex_names_wf
  by (simp add: ex_lookup_list_def ex_driver_def)


section \<open>The type parser\<close>




lemma isdigit_NUL: "\<not> isdigit NUL" by (simp add: isdigit_def NUL_def)

lemma Upeek_append: "Upeek (ds @ tail) = (if ds = [] then Upeek tail else hd ds)"
  by (cases ds) auto








lemma Upeek_eq_conv: "c \<noteq> NUL \<Longrightarrow> Upeek s = c \<longleftrightarrow> (\<exists>rest. s = c # rest)"
  by (cases s) auto






section \<open>The lookup core\<close>

lemma cache_usable_iff:
  "cache_usable env (world s) (sc_item_cache c (cstr keystring)) opts cache_rd
   \<longleftrightarrow> item_cache_hit env s c keystring cache_rd opts"
  by (auto simp: cache_usable_def item_cache_hit_def Ustrcmp_zero_iff
           split: option.splits)

text \<open>
  Claim C1. A call of \<open>internal_search_find\<close> with a non-empty key on a handle of the
  tree leaves the driver's find hook alone exactly when the item cache has an entry for
  the key that has not expired, carries the same options and may be read; it then
  returns the cached payload and the world is as it was. In every other case the find
  hook is called once, with the handle of the slot, the file name, the key, its length
  and the options, in the world as it is: the call returns the payload that the hook
  delivers, leaves the world that the hook leaves, and the defer flag says whether the
  hook returned \<open>DEFER\<close>.
\<close>

theorem internal_search_find_cache_probe:
  assumes "search_tree s handle = Some c"
    and "Upeek keystring \<noteq> NUL"
    and "lookup_entry env (Uhead handle - 48) = Inr lk"
    and "li_find lk = Some findhook"
  shows "\<exists>y s'. internal_search_find env handle filename keystring cache_rd opts s = Inr (y, s')
     \<and> (hook_calls s' = hook_calls s \<longleftrightarrow> item_cache_hit env s c keystring cache_rd opts)
     \<and> (item_cache_hit env s c keystring cache_rd opts \<longrightarrow>
          y = ed_data (the (sc_item_cache c (cstr keystring))) \<and> world s' = world s)
     \<and> (\<not> item_cache_hit env s c keystring cache_rd opts \<longrightarrow>
          hook_calls s' = hook_calls s @
            [CallFind (Uhead handle - 48) (sc_handle c) filename (cstr keystring) opts] \<and>
          y = fr_data (fst (findhook (sc_handle c) filename (cstr keystring) (Ustrlen keystring)
                              opts (world s))) \<and>
          world s' = snd (findhook (sc_handle c) filename (cstr keystring) (Ustrlen keystring)
                            opts (world s)) \<and>
          search_find_defer s' =
            (fr_rc (fst (findhook (sc_handle c) filename (cstr keystring) (Ustrlen keystring)
                           opts (world s))) = DEFER))"
proof (cases "item_cache_hit env s c keystring cache_rd opts")
  case True
  with assms show ?thesis
    by (simp add: internal_search_find_def cache_usable_iff[symmetric] Let_def)
next
  case False
  obtain r w where f: "findhook (sc_handle c) filename (cstr keystring) (Ustrlen keystring) opts (world s) = (r, w)"
    by (cases "findhook (sc_handle c) filename (cstr keystring) (Ustrlen keystring) opts (world s)")
  from False assms f show ?thesis
    by (simp add: internal_search_find_def cache_usable_iff[symmetric] Let_def fbind_def)
qed

theorem internal_search_find_cache_probe_witness:
  "item_cache_hit ex_env ex_state ex_cache ''foo'' True None \<and>
   \<not> item_cache_hit ex_env ex_state ex_cache ''ttl'' True None \<and>
   fst (projr (internal_search_find ex_env ''1/a'' (Some ''/a'') ''foo'' True None ex_state)) = Some ''bar'' \<and>
   hook_calls (snd (projr (internal_search_find ex_env ''1/a'' (Some ''/a'') ''foo'' True None ex_state))) = [] \<and>
   hook_calls (snd (projr (internal_search_find ex_env ''1/a'' (Some ''/a'') ''ttl'' True None ex_state))) =
     [CallFind 1 (Some 7) (Some ''/a'') ''ttl'' None] \<and>
   fst (projr (internal_search_find ex_env ''1/a'' (Some ''/a'') ''ttl'' True None ex_state)) =
     fr_data (fst (ex_find (Some 7) (Some ''/a'') ''ttl'' 3 None 100)) \<and>
   fr_data (fst (ex_find (Some 7) (Some ''/a'') ''ttl'' 3 None 100)) = Some ''v1''"
proof -
  have k1: "Upeek ''foo'' \<noteq> NUL" and k2: "Upeek ''ttl'' \<noteq> NUL" by (simp_all add: NUL_def)
  from internal_search_find_cache_probe[OF ex_tree k1 ex_entry ex_hook, of "Some ''/a''" True None]
    ex_hit_foo
  have a: "fst (projr (internal_search_find ex_env ''1/a'' (Some ''/a'') ''foo'' True None ex_state)) = Some ''bar'' \<and>
   hook_calls (snd (projr (internal_search_find ex_env ''1/a'' (Some ''/a'') ''foo'' True None ex_state))) = []"
    by (auto simp: ex_cache_def cstr_def NUL_def ex_state_def ex_init_def)
  from internal_search_find_cache_probe[OF ex_tree k2 ex_entry ex_hook, of "Some ''/a''" True None]
    ex_miss_ttl
  have b: "hook_calls (snd (projr (internal_search_find ex_env ''1/a'' (Some ''/a'') ''ttl'' True None ex_state))) =
     [CallFind 1 (Some 7) (Some ''/a'') ''ttl'' None] \<and>
   fst (projr (internal_search_find ex_env ''1/a'' (Some ''/a'') ''ttl'' True None ex_state)) =
     fr_data (fst (ex_find (Some 7) (Some ''/a'') ''ttl'' 3 None 100))"
    by (auto simp: ex_cache_def cstr_def NUL_def ex_state_def ex_init_def Ustrlen_def)
  have c: "fr_data (fst (ex_find (Some 7) (Some ''/a'') ''ttl'' 3 None 100)) = Some ''v1''"
    by code_simp
  from a b c ex_hit_foo ex_miss_ttl show ?thesis by simp
qed

text \<open>
  Claim C3. After a miss, when the find hook returns \<open>OK\<close> or \<open>FAIL\<close>: with a non-zero
  \<open>do_cache\<close> the entry for the key is installed or replaced (payload, options, expiry 0
  for \<open>UINT_MAX\<close> and now plus \<open>do_cache\<close> otherwise); with a zero \<open>do_cache\<close> the item
  cache of the handle is emptied. The handle stays open and the other nodes unchanged.
\<close>

theorem internal_search_find_cache_write:
  assumes "search_tree s handle = Some c"
    and "Upeek keystring \<noteq> NUL"
    and "\<not> item_cache_hit env s c keystring cache_rd opts"
    and "lookup_entry env (Uhead handle - 48) = Inr lk"
    and "li_find lk = Some findhook"
    and "findhook (sc_handle c) filename (cstr keystring) (Ustrlen keystring) opts (world s) = (r, w)"
    and "fr_rc r = OK \<or> fr_rc r = FAIL"
  shows "\<exists>s'. internal_search_find env handle filename keystring cache_rd opts s = Inr (fr_data r, s')
     \<and> (fr_do_cache r \<noteq> 0 \<longrightarrow>
          search_tree s' handle = Some (c\<lparr>sc_item_cache :=
             (sc_item_cache c)(cstr keystring \<mapsto> cache_entry env w r opts)\<rparr>))
     \<and> (fr_do_cache r = 0 \<longrightarrow>
          search_tree s' handle = Some (c\<lparr>sc_item_cache := Map.empty\<rparr>))
     \<and> (\<forall>h. h \<noteq> handle \<longrightarrow> search_tree s' h = search_tree s h)
     \<and> hook_calls s' = hook_calls s @
            [CallFind (Uhead handle - 48) (sc_handle c) filename (cstr keystring) opts]
     \<and> \<not> search_find_defer s'"
  using assms
  by (auto simp: internal_search_find_def cache_usable_iff[symmetric] Let_def fbind_def cache_entry_def)

theorem internal_search_find_cache_write_witness:
  "search_tree (snd (projr (internal_search_find ex_env ''1/a'' (Some ''/a'') ''ttl'' True None ex_state))) ''1/a''
     = Some (ex_cache\<lparr>sc_item_cache := (sc_item_cache ex_cache)
              (''ttl'' \<mapsto> \<lparr>expiry = 101, ed_opts = None, ed_data = Some ''v1''\<rparr>)\<rparr>) \<and>
   search_tree (snd (projr (internal_search_find ex_env ''1/a'' (Some ''/a'') ''upd'' True None ex_state))) ''1/a''
     = Some (ex_cache\<lparr>sc_item_cache := Map.empty\<rparr>)"
proof -
  have k1: "Upeek ''ttl'' \<noteq> NUL" and k2: "Upeek ''upd'' \<noteq> NUL" by (simp_all add: NUL_def)
  have ok: "fr_rc \<lparr>fr_rc = OK, fr_data = Some ''v1'', fr_errmsg = None, fr_do_cache = 1\<rparr> = OK \<or>
            fr_rc \<lparr>fr_rc = OK, fr_data = Some ''v1'', fr_errmsg = None, fr_do_cache = 1\<rparr> = FAIL"
    by simp
  have ok2: "fr_rc \<lparr>fr_rc = OK, fr_data = Some ''done'', fr_errmsg = None, fr_do_cache = 0\<rparr> = OK \<or>
            fr_rc \<lparr>fr_rc = OK, fr_data = Some ''done'', fr_errmsg = None, fr_do_cache = 0\<rparr> = FAIL"
    by simp
  from internal_search_find_cache_write[OF ex_tree k1 ex_miss_ttl ex_entry ex_hook ex_find_ttl ok]
  have a: "search_tree (snd (projr (internal_search_find ex_env ''1/a'' (Some ''/a'') ''ttl'' True None ex_state))) ''1/a''
     = Some (ex_cache\<lparr>sc_item_cache := (sc_item_cache ex_cache)
              (''ttl'' \<mapsto> \<lparr>expiry = 101, ed_opts = None, ed_data = Some ''v1''\<rparr>)\<rparr>)"
    by (auto simp: cache_entry_def UINT_MAX_def ex_env_def cstr_def NUL_def)
  from internal_search_find_cache_write[OF ex_tree k2 ex_miss_upd ex_entry ex_hook ex_find_upd ok2]
  have b: "search_tree (snd (projr (internal_search_find ex_env ''1/a'' (Some ''/a'') ''upd'' True None ex_state))) ''1/a''
     = Some (ex_cache\<lparr>sc_item_cache := Map.empty\<rparr>)"
    by auto
  from a b show ?thesis by simp
qed






section \<open>The wildcard engine\<close>

subsection \<open>Buffers\<close>

declare partial_loop.simps [simp del]

lemma poke_other: "fst p \<noteq> b \<Longrightarrow> poke m p c b = m b"
  by (simp add: poke_def)

lemma write_bytes_other: "fst p \<noteq> b \<Longrightarrow> write_bytes m p bs b = m b"
  by (induction bs arbitrary: m p) (simp_all add: poke_other)

lemma poke_restore: "poke (poke m p c) p (peek m p) = m"
proof -
  have "((m (fst p))[snd p := c])[snd p := Upeek (drop (snd p) (m (fst p)))] = m (fst p)"
  proof (cases "snd p < length (m (fst p))")
    case True
    then have "Upeek (drop (snd p) (m (fst p))) = m (fst p) ! snd p"
      by (cases "drop (snd p) (m (fst p))") (auto simp: hd_drop_conv_nth[symmetric])
    then show ?thesis by simp
  next
    case False then show ?thesis by (simp add: list_update_beyond)
  qed
  then show ?thesis by (auto simp: poke_def peek_def fun_eq_iff)
qed

lemma partial_probe_KEY:
  "partial_probe a b k3 affixlen mem = (affixlen1, mem1, k3b) \<Longrightarrow> (b = KEY \<longrightarrow> affixlen = 0) \<Longrightarrow>
   \<not> (peek mem (b, k3) = NUL \<and> affixlen < 1) \<Longrightarrow>
   mem1 KEY = mem KEY \<and> (b = KEY \<longrightarrow> affixlen1 = 0)"
  by (auto simp: partial_probe_def Let_def write_bytes_other poke_other split: if_splits)

lemma partial_loop_exit:
  "\<not> dotcount \<ge> fa_partial a \<Longrightarrow>
   partial_loop env a b dotcount k3 affixlen es mem s = Inr (False, None, es, mem, s)"
  by (subst partial_loop.simps) simp

lemma partial_loop_break:
  "dotcount \<ge> fa_partial a \<Longrightarrow> peek mem (b, next_dot mem (b, k3)) = NUL \<and> affixlen < 1 \<Longrightarrow>
   partial_loop env a b dotcount k3 affixlen es mem s = Inr (False, None, es, mem, s)"
  by (subst partial_loop.simps) simp

lemma partial_loop_step:
  "dotcount \<ge> fa_partial a \<Longrightarrow> \<not> (peek mem (b, next_dot mem (b, k3)) = NUL \<and> affixlen < 1) \<Longrightarrow>
   partial_probe a b (next_dot mem (b, k3)) affixlen mem = (affixlen1, mem1, k3b) \<Longrightarrow>
   partial_loop env a b dotcount k3 affixlen es mem s =
     (case internal_search_find env (fa_handle a) (fa_filename a) (str_at mem1 (b, k3b))
             (fa_cache_rd a) (fa_opts a) s of
        Inl e \<Rightarrow> Inl e
      | Inr (yield, s1) \<Rightarrow>
          if search_find_defer s1 then Inr (True, None, es, mem1, s1)
          else if yield \<noteq> None then
            (case partial_hit (b, k3b) affixlen1 es mem1 s1 of
               (es, s2) \<Rightarrow> Inr (False, yield, es, mem1, s2))
          else partial_loop env a b (dotcount - 1) (k3b + affixlen1) affixlen1 es mem1 s1)"
  by (subst partial_loop.simps) auto

lemma partial_loop_KEY:
  "partial_loop env a b dotcount k3 affixlen es mem s = Inr (ret, y, es', mem', s') \<Longrightarrow>
   (b = KEY \<longrightarrow> affixlen = 0) \<Longrightarrow> mem' KEY = mem KEY"
proof (induction env a b dotcount k3 affixlen es mem s rule: partial_loop.induct)
  case (1 env a b dotcount k3 affixlen es mem s)
  show ?case
  proof (cases "dotcount \<ge> fa_partial a")
    case False
    with "1.prems"(1) show ?thesis by (simp add: partial_loop_exit)
  next
    case True
    show ?thesis
    proof (cases "peek mem (b, next_dot mem (b, k3)) = NUL \<and> affixlen < 1")
      case brk: True
      with True "1.prems"(1) show ?thesis by (simp add: partial_loop_break)
    next
      case nobrk: False
      obtain affixlen1 mem1 k3b where
        t: "partial_probe a b (next_dot mem (b, k3)) affixlen mem = (affixlen1, mem1, k3b)"
        by (cases "partial_probe a b (next_dot mem (b, k3)) affixlen mem") auto
      from partial_probe_KEY[OF t "1.prems"(2) nobrk]
      have m1: "mem1 KEY = mem KEY" and al: "b = KEY \<longrightarrow> affixlen1 = 0" by simp_all
      note step = partial_loop_step[OF True nobrk t, of env es s]
      show ?thesis
      proof (cases "internal_search_find env (fa_handle a) (fa_filename a) (str_at mem1 (b, k3b))
                        (fa_cache_rd a) (fa_opts a) s")
        case (Inl e)
        with step "1.prems"(1) show ?thesis by simp
      next
        case (Inr r)
        obtain yield s1 where r: "r = (yield, s1)" by (cases r) auto
        from Inr r have isf: "internal_search_find env (fa_handle a) (fa_filename a) (str_at mem1 (b, k3b))
                        (fa_cache_rd a) (fa_opts a) s = Inr (yield, s1)" by simp
        show ?thesis
        proof (cases "search_find_defer s1 \<or> yield \<noteq> None")
          case stop: True
          with step isf "1.prems"(1) m1 show ?thesis
            by (auto split: prod.splits if_splits)
        next
          case cont: False
          with step isf "1.prems"(1)
          have rec: "partial_loop env a b (dotcount - 1) (k3b + affixlen1) affixlen1 es mem1 s1
                     = Inr (ret, y, es', mem', s')"
            by simp
          from cont have nd: "\<not> search_find_defer s1" and yn: "\<not> yield \<noteq> None" by simp_all
          have "mem' KEY = mem1 KEY"
            by (rule "1.IH"[OF True nobrk t[symmetric] refl isf refl nd yn rec al])
          with m1 show ?thesis by simp
        qed
      qed
    qed
  qed
qed


lemma partial_stage_KEY:
  assumes "partial_stage env a affixlen es mem s = Inr (ret, y, snw, es', mem', s')"
  shows "mem' KEY = mem KEY"
proof (cases "affixlen = 0")
  case True
  have bk: "KEY = KEY \<longrightarrow> (0::nat) = 0" by simp
  note L = partial_loop_KEY[OF _ bk]
  from assms True show ?thesis
    unfolding partial_stage_def Let_def
    by (auto simp: fbind_def split: sum.splits prod.splits if_splits dest!: L)
next
  case False
  define mem1 where "mem1 = write_bytes
                         (write_bytes (mem(KEY2 := replicate (nat (Ustrlen (str_at mem (KEY, 0))) + affixlen + 1) NUL))
                            (KEY2, 0) (strncpy_bytes (fa_affix a) affixlen))
                         (KEY2, affixlen) (str_at mem (KEY, 0) @ [NUL])"
  have m1: "mem1 KEY = mem KEY"
    by (simp add: mem1_def write_bytes_other)
  have bk: "KEY2 = KEY \<longrightarrow> affixlen = 0" by simp
  note L = partial_loop_KEY[OF _ bk]
  from assms False have "mem' KEY = mem1 KEY"
    unfolding partial_stage_def Let_def mem1_def[symmetric]
    by (auto simp: fbind_def split: sum.splits prod.splits if_splits dest!: L)
  with m1 show ?thesis by simp
qed

lemma starat_stage_KEY:
  assumes "starat_stage env a starflags yield es mem s = Inr (ret, y, es', mem', s')"
  shows "mem' = mem"
  using assms
  by (auto simp: starat_stage_def Let_def fbind_def poke_restore
           split: sum.splits prod.splits if_splits option.splits)

lemma cstr_nonul: "NUL \<notin> set (cstr s)"
  by (auto simp: cstr_def dest: set_takeWhileD)

lemma cstr_append_NUL: "NUL \<notin> set xs \<Longrightarrow> cstr (xs @ NUL # ys) = xs"
proof -
  assume a: "NUL \<notin> set xs"
  then have "takeWhile (\<lambda>c. c \<noteq> NUL) (xs @ NUL # ys) = xs @ takeWhile (\<lambda>c. c \<noteq> NUL) (NUL # ys)"
    by (intro takeWhile_append2) auto
  then show ?thesis by (simp add: cstr_def)
qed

lemma cstr_id: "NUL \<notin> set xs \<Longrightarrow> cstr xs = xs"
proof -
  assume "NUL \<notin> set xs"
  then have "takeWhile (\<lambda>c. c \<noteq> NUL) xs = xs" by (intro takeWhile_eq_all_conv[THEN iffD2]) auto
  then show ?thesis unfolding cstr_def .
qed

lemma cstr_cstr: "cstr (cstr s) = cstr s"
  by (rule cstr_id[OF cstr_nonul])

lemma write_bytes_at:
  "k + length bs \<le> length (m b) \<Longrightarrow>
   write_bytes m (b, k) bs b = take k (m b) @ bs @ drop (k + length bs) (m b)"
proof (induction bs arbitrary: m k)
  case Nil
  then show ?case by simp
next
  case (Cons c cs)
  from Cons.prems have k: "k < length (m b)" by simp
  have len: "length (poke m (b, k) c b) = length (m b)" by (simp add: poke_def)
  have "write_bytes m (b, k) (c # cs) b = write_bytes (poke m (b, k) c) (b, k + 1) cs b" by simp
  also have "\<dots> = take (k + 1) (poke m (b, k) c b) @ cs @ drop (k + 1 + length cs) (poke m (b, k) c b)"
    using Cons.prems by (intro Cons.IH) (simp add: len)
  also have "take (k + 1) (poke m (b, k) c b) = take k (m b) @ [c]"
    using k by (simp add: poke_def take_Suc_conv_app_nth)
  also have "drop (k + 1 + length cs) (poke m (b, k) c b) = drop (k + length (c # cs)) (m b)"
    by (simp add: poke_def)
  finally show ?case by simp
qed

lemma strncpy_bytes_short: "n \<le> length (cstr src) \<Longrightarrow> strncpy_bytes src n = take n (cstr src)"
  by (simp add: strncpy_bytes_def)

lemma internal_search_find_lookups:
  "internal_search_find env h f k rd opts s = Inr (y, s') \<Longrightarrow> lookups s' = lookups s @ [cstr k]"
  by (auto simp: internal_search_find_def Let_def fbind_def
           split: option.splits if_splits sum.splits prod.splits)

lemma cstr_append2_NUL:
  "NUL \<notin> set xs \<Longrightarrow> NUL \<notin> set ys \<Longrightarrow> cstr (xs @ ys @ NUL # zs) = xs @ ys"
  using cstr_append_NUL[of "xs @ ys" zs] by simp

lemma key2_buffer:
  assumes "affixlen \<le> length (cstr affix)" and "mem KEY = key @ [NUL]" and "NUL \<notin> set key"
  shows "write_bytes
           (write_bytes (mem(KEY2 := replicate (nat (Ustrlen (str_at mem (KEY, 0))) + affixlen + 1) NUL))
              (KEY2, 0) (strncpy_bytes affix affixlen))
           (KEY2, affixlen) (str_at mem (KEY, 0) @ [NUL])
         = mem(KEY2 := take affixlen (cstr affix) @ key @ [NUL])"
proof -
  have sk: "str_at mem (KEY, 0) = key"
    using assms(2,3) by (simp add: str_at_def cstr_append_NUL)
  have len: "nat (Ustrlen key) = length key"
    using assms(3) by (simp add: Ustrlen_def cstr_id)
  define A where "A = take affixlen (cstr affix)"
  have lA: "length A = affixlen" using assms(1) by (simp add: A_def)
  define m0 where "m0 = mem(KEY2 := replicate (length key + affixlen + 1) NUL)"
  define m1 where "m1 = write_bytes m0 (KEY2, 0) A"
  define m2 where "m2 = write_bytes m1 (KEY2, affixlen) (key @ [NUL])"
  have dr: "drop affixlen (replicate (length key + affixlen + 1) NUL) = replicate (length key + 1) NUL"
    unfolding drop_replicate by simp
  have "m1 KEY2 = take 0 (m0 KEY2) @ A @ drop (0 + length A) (m0 KEY2)"
    unfolding m1_def using lA by (intro write_bytes_at) (simp add: m0_def)
  then have m1k: "m1 KEY2 = A @ replicate (length key + 1) NUL"
    using dr lA by (simp add: m0_def del: replicate.simps)
  have "m2 KEY2 = take affixlen (m1 KEY2) @ (key @ [NUL]) @ drop (affixlen + length (key @ [NUL])) (m1 KEY2)"
    unfolding m2_def using lA by (intro write_bytes_at) (simp add: m1k)
  then have m2k: "m2 KEY2 = A @ key @ [NUL]"
    using lA by (simp add: m1k)
  have oth: "\<And>b. b \<noteq> KEY2 \<Longrightarrow> m2 b = mem b"
    by (simp add: m2_def m1_def m0_def write_bytes_other)
  have "m2 = mem(KEY2 := A @ key @ [NUL])"
    using m2k oth by (auto simp: fun_eq_iff)
  then show ?thesis
    by (simp add: m2_def m1_def m0_def A_def sk len strncpy_bytes_short[OF assms(1)])
qed




lemma Inr_collapse: "\<not> isl r \<Longrightarrow> fst (projr r) = y \<Longrightarrow> r = Inr (y, snd (projr r))"
  by (cases r) auto


subsection \<open>The caller's key\<close>

text \<open>
  Claim C10. Whenever \<open>search_find\<close> returns, the caller's key buffer holds the bytes it
  held at the call: the \<open>*@\<close> attempt puts the saved byte back before it returns, a
  non-empty affix sends every write of the partial attempts to the block from
  \<open>store_get\<close>, and an empty affix leaves nothing to write.
\<close>

theorem search_find_key_unchanged:
  assumes "search_find env handle filename keystring partial affix affixlen starflags expand_setup opts s
           = Inr (yield, key_after, es, s')"
  shows "key_after = cstr keystring @ [NUL]"
proof -
  obtain ret_key cache_rd opts1 where po: "parse_opts opts = (ret_key, cache_rd, opts1)"
    by (cases "parse_opts opts") auto
  define mem :: memory where "mem = (\<lambda>b. []) (KEY := cstr keystring @ [NUL])"
  have k: "mem KEY = cstr keystring @ [NUL]" by (simp add: mem_def)
  from assms show ?thesis
    unfolding search_find_def po prod.case Let_def mem_def[symmetric] search_find_defaults_def
    using k
    by (auto simp: fbind_def split: sum.splits prod.splits if_splits
             dest!: partial_stage_KEY starat_stage_KEY)
qed

theorem search_find_key_unchanged_witness:
  "fst (snd (projr (search_find ex_env ''1/a'' (Some ''/a'') ''alice@example.com''
        0 [] 0 SEARCH_STARAT (Some 0) None ex_state))) = ''alice@example.com'' @ [NUL]"
proof -
  define r where "r = search_find ex_env ''1/a'' (Some ''/a'') ''alice@example.com''
        0 [] 0 SEARCH_STARAT (Some 0) None ex_state"
  have "\<not> isl r" unfolding r_def by code_simp
  then have "r = Inr (fst (projr r), fst (snd (projr r)), fst (snd (snd (projr r))), snd (snd (snd (projr r))))"
    by (cases r) auto
  from search_find_key_unchanged[OF this[unfolded r_def]]
  show ?thesis by (simp add: cstr_def NUL_def)
qed

subsection \<open>Partial matching at the boundary\<close>


lemma next_dot_dot:
  assumes "NUL \<notin> set key" and "CHR ''.'' \<in> set key" and "length A = n"
  shows "next_dot (m(KEY2 := A @ key @ [NUL])) (KEY2, n) =
           n + length (takeWhile (\<lambda>c. c \<noteq> CHR ''.'') key)"
proof -
  from assms(2) obtain us vs where k: "key = us @ CHR ''.'' # vs" and u: "CHR ''.'' \<notin> set us"
    by (auto dest: split_list_first)
  from assms(1) k have un: "NUL \<notin> set us" by simp
  have "takeWhile (\<lambda>c. c \<noteq> NUL \<and> c \<noteq> CHR ''.'') (us @ CHR ''.'' # vs @ [NUL]) = us"
    using u un by (subst takeWhile_append2) auto
  moreover have "takeWhile (\<lambda>c. c \<noteq> CHR ''.'') (us @ CHR ''.'' # vs) = us"
    using u by (subst takeWhile_append2) auto
  ultimately show ?thesis using assms(3) by (simp add: next_dot_def k)
qed

lemma next_dot_nodot:
  assumes "NUL \<notin> set key" and "CHR ''.'' \<notin> set key" and "length A = n"
  shows "next_dot (m(KEY2 := A @ key @ [NUL])) (KEY2, n) = n + length key"
proof -
  have "takeWhile (\<lambda>c. c \<noteq> NUL \<and> c \<noteq> CHR ''.'') (key @ [NUL]) = key"
    using assms(1,2) by (subst takeWhile_append2) auto
  then show ?thesis using assms(3) by (simp add: next_dot_def)
qed

lemma Upeek_drop: "n < length xs \<Longrightarrow> Upeek (drop n xs) = xs ! n"
  by (cases "drop n xs") (auto simp: hd_drop_conv_nth dest: arg_cong[where f = hd])

lemma cstr_nth: "n < length (cstr s) \<Longrightarrow> cstr s ! n = s ! n \<and> n < length s"
proof -
  assume a: "n < length (cstr s)"
  have "cstr s = take (length (cstr s)) s"
    unfolding cstr_def by (rule takeWhile_eq_take)
  then have "cstr s ! n = take (length (cstr s)) s ! n" by simp
  with a have "cstr s ! n = s ! n" by simp
  moreover have "length (cstr s) \<le> length s" by (simp add: cstr_def length_takeWhile_le)
  ultimately show ?thesis using a by simp
qed

lemma probe_key:
  assumes kn: "NUL \<notin> set key" and al: "affixlen \<le> length (cstr (fa_affix a))" and a0: "0 < affixlen"
    and pp: "partial_probe a KEY2
               (next_dot (m(KEY2 := take affixlen (cstr (fa_affix a)) @ key @ [NUL])) (KEY2, affixlen))
               affixlen (m(KEY2 := take affixlen (cstr (fa_affix a)) @ key @ [NUL])) = (al1, mem2, k3b)"
  shows "str_at mem2 (KEY2, k3b) = trimmed_key (take affixlen (cstr (fa_affix a))) key"
proof -
  define A where "A = take affixlen (cstr (fa_affix a))"
  define mem1 where "mem1 = m(KEY2 := A @ key @ [NUL])"
  have lA: "length A = affixlen" using al by (simp add: A_def)
  have An: "NUL \<notin> set A" using cstr_nonul[of "fa_affix a"] by (auto simp: A_def dest: in_set_takeD)
  note pp' = pp[folded A_def, folded mem1_def]
  have m1: "mem1 KEY2 = A @ key @ [NUL]" by (simp add: mem1_def)
  show ?thesis
  proof (cases "CHR ''.'' \<in> set key")
    case True
    then obtain us vs where k: "key = us @ CHR ''.'' # vs" and u: "CHR ''.'' \<notin> set us"
      by (auto dest: split_list_first)
    have tw: "takeWhile (\<lambda>c. c \<noteq> CHR ''.'') (us @ CHR ''.'' # vs) = us"
      using u by (subst takeWhile_append2) auto
    have dw: "dropWhile (\<lambda>c. c \<noteq> CHR ''.'') (us @ CHR ''.'' # vs) = CHR ''.'' # vs"
      using u by (subst dropWhile_append2) auto
    have nd: "next_dot mem1 (KEY2, affixlen) = affixlen + length us"
      unfolding mem1_def using next_dot_dot[OF kn True lA, of m] by (simp add: k tw)
    have pk: "peek mem1 (KEY2, affixlen + length us) = CHR ''.''"
      by (simp add: peek_def m1 lA k)
    have sb: "strncpy_bytes (fa_affix a) affixlen = A"
      by (simp add: strncpy_bytes_short[OF al] A_def)
    have kk: "nat (int (length us) + 1) = Suc (length us)" by simp
    from pp' have r: "al1 = affixlen" "k3b = Suc (length us)"
      "mem2 = write_bytes mem1 (KEY2, Suc (length us)) A"
      using a0 by (auto simp: partial_probe_def nd pk NUL_def Let_def sb kk)
    have "write_bytes mem1 (KEY2, Suc (length us)) A KEY2 =
            take (Suc (length us)) (mem1 KEY2) @ A @ drop (Suc (length us) + length A) (mem1 KEY2)"
      by (rule write_bytes_at) (simp add: m1 k lA)
    also have "drop (Suc (length us) + length A) (mem1 KEY2) = vs @ [NUL]"
      by (simp add: m1 k)
    finally have "drop (Suc (length us)) (mem2 KEY2) = A @ vs @ [NUL]"
      by (simp add: r m1 k lA)
    moreover have "NUL \<notin> set vs" using kn k by simp
    ultimately have "str_at mem2 (KEY2, k3b) = A @ vs"
      using An by (simp add: str_at_def r cstr_append2_NUL)
    moreover have "trimmed_key A key = A @ vs" using True by (simp add: trimmed_key_def k dw)
    ultimately show ?thesis by (simp add: A_def)
  next
    case False
    have nd: "next_dot mem1 (KEY2, affixlen) = affixlen + length key"
      unfolding mem1_def using next_dot_nodot[OF kn False lA, of m] by simp
    have pk: "peek mem1 (KEY2, affixlen + length key) = NUL"
      by (simp add: peek_def m1 lA)
    define n where "n = (if affixlen > 1 \<and> Upeek (drop (affixlen - 1) (fa_affix a)) = CHR ''.''
                         then affixlen - 1 else affixlen)"
    have nle: "n \<le> affixlen" by (simp add: n_def)
    have sb: "strncpy_bytes (fa_affix a) n = take n A"
      using strncpy_bytes_short[of n "fa_affix a"] al nle by (simp add: A_def min_def)
    note pp2 = pp'[unfolded partial_probe_def Let_def, folded n_def]
    from pp2 have r: "k3b = 0" "mem2 = poke (write_bytes mem1 (KEY2, 0) (take n A)) (KEY2, n) NUL"
      by (auto simp: nd pk sb)
    have ln: "length (take n A) = n" using nle lA by simp
    have "write_bytes mem1 (KEY2, 0) (take n A) KEY2 =
            take 0 (mem1 KEY2) @ take n A @ drop (0 + length (take n A)) (mem1 KEY2)"
      by (rule write_bytes_at) (simp add: m1 lA)
    then have w0: "write_bytes mem1 (KEY2, 0) (take n A) KEY2 = take n A @ drop n (A @ key @ [NUL])"
      unfolding ln m1 by simp
    define D where "D = drop n (A @ key @ [NUL])"
    have "D \<noteq> []" unfolding D_def using nle lA by simp
    then obtain c rest where dr: "D = c # rest" by (cases D) auto
    have w: "write_bytes mem1 (KEY2, 0) (take n A) KEY2 = take n A @ c # rest"
      using w0 unfolding D_def[symmetric] dr .
    have "(take n A @ c # rest)[n := NUL] = take n A @ NUL # rest"
      using ln by (simp add: list_update_append)
    then have "mem2 KEY2 = take n A @ NUL # rest"
      by (simp add: r poke_def w)
    moreover have "NUL \<notin> set (take n A)" using An by (auto dest: in_set_takeD)
    ultimately have s: "str_at mem2 (KEY2, k3b) = take n A"
      by (simp add: str_at_def r cstr_append_NUL)
    have lastA: "Upeek (drop (affixlen - 1) (fa_affix a)) = last A"
    proof -
      from a0 al have lt: "affixlen - 1 < length (cstr (fa_affix a))" by simp
      from cstr_nth[OF lt] have e: "cstr (fa_affix a) ! (affixlen - 1) = fa_affix a ! (affixlen - 1)"
        and l2: "affixlen - 1 < length (fa_affix a)" by simp_all
      have "A \<noteq> []" using lA a0 by auto
      then have "last A = A ! (affixlen - 1)" using lA by (simp add: last_conv_nth)
      also have "\<dots> = cstr (fa_affix a) ! (affixlen - 1)" using a0 by (simp add: A_def)
      finally show ?thesis using e Upeek_drop[OF l2] by simp
    qed
    have "take n A = (if 1 < length A \<and> last A = CHR ''.'' then butlast A else A)"
      using lA lastA by (simp add: n_def butlast_conv_take)
    with s False show ?thesis by (simp add: trimmed_key_def A_def)
  qed
qed

lemma trimmed_key_nonul:
  "NUL \<notin> set A \<Longrightarrow> NUL \<notin> set key \<Longrightarrow> NUL \<notin> set (trimmed_key A key)"
proof -
  assume a: "NUL \<notin> set A" and k: "NUL \<notin> set key"
  have "set (tl (dropWhile (\<lambda>c. c \<noteq> CHR ''.'') key)) \<subseteq> set key"
  proof
    fix x assume "x \<in> set (tl (dropWhile (\<lambda>c. c \<noteq> CHR ''.'') key))"
    then have "x \<in> set (dropWhile (\<lambda>c. c \<noteq> CHR ''.'') key)"
      by (cases "dropWhile (\<lambda>c. c \<noteq> CHR ''.'') key") auto
    then show "x \<in> set key" by (rule set_dropWhileD)
  qed
  moreover have "set (butlast A) \<subseteq> set A" by (auto dest: in_set_butlastD)
  ultimately show ?thesis using a k by (auto simp: trimmed_key_def)
qed


text \<open>
  Claim C9, amended. With partial matching on, a non-empty affix and a key that has at
  most \<open>partial\<close> dots, once the verbatim lookup has missed the engine looks up the affix
  followed by the whole key. If that lookup defers, \<open>search_find\<close> returns null; if it
  hits, or if it misses and the key has fewer than \<open>partial\<close> dots, the engine goes
  straight to the defaults with no left-trimming lookup. If it misses and the key has
  exactly \<open>partial\<close> dots, the engine does one left-trimming lookup, of the affix followed
  by what follows the first dot of the key (for a key with no dot, the affix alone,
  without its last character when that is a dot and not the only one), and no other:
  it returns null when that lookup defers and goes to the defaults otherwise, after
  setting the expansion variables on a hit.
\<close>

theorem search_find_partial_boundary:
  assumes "0 \<le> partial" and "0 < affixlen" and "affixlen \<le> length (cstr affix)"
    and "count_dots (cstr keystring) \<le> partial"
    and "parse_opts opts = (ret_key, cache_rd, opts1)"
    and "lru_promote env handle s = Inr s1"
    and "internal_search_find env handle filename keystring cache_rd opts1 s1 = Inr (None, s2)"
    and "\<not> search_find_defer s2"
    and "internal_search_find env handle filename (take affixlen (cstr affix) @ cstr keystring)
           cache_rd opts1 s2 = Inr (y3, s3)"
    and "count_dots (cstr keystring) = partial \<and> y3 = None \<and> \<not> search_find_defer s3 \<longrightarrow>
         internal_search_find env handle filename
           (trimmed_key (take affixlen (cstr affix)) (cstr keystring)) cache_rd opts1 s3 = Inr (y4, s4)"
  shows "(let a = \<lparr>fa_handle = handle, fa_filename = filename, fa_partial = partial,
                   fa_affix = affix, fa_cache_rd = cache_rd, fa_opts = opts1\<rparr>;
              mem1 = (\<lambda>b. []) (KEY := cstr keystring @ [NUL],
                                KEY2 := take affixlen (cstr affix) @ cstr keystring @ [NUL])
          in search_find env handle filename keystring partial affix affixlen starflags expand_setup opts s =
               (if search_find_defer s3 then Inr (None, cstr keystring @ [NUL], expand_setup, s3)
                else if y3 \<noteq> None \<or> count_dots (cstr keystring) < partial then
                  search_find_defaults env a starflags ret_key (y3 \<noteq> None) y3 expand_setup mem1 s3
                else if search_find_defer s4 then Inr (None, cstr keystring @ [NUL], expand_setup, s4)
                else
                  (case partial_probe a KEY2 (next_dot mem1 (KEY2, affixlen)) affixlen mem1 of
                     (al1, mem2, k3b) \<Rightarrow>
                       (case (if y4 \<noteq> None then partial_hit (KEY2, k3b) al1 expand_setup mem2 s4
                              else (expand_setup, s4)) of
                          (es, s5) \<Rightarrow>
                            search_find_defaults env a starflags ret_key False y4 es mem2 s5))))
         \<and> lookups s3 = lookups s1 @ [cstr keystring, take affixlen (cstr affix) @ cstr keystring]
         \<and> (count_dots (cstr keystring) = partial \<and> y3 = None \<and> \<not> search_find_defer s3 \<longrightarrow>
              lookups s4 = lookups s1 @
                [cstr keystring, take affixlen (cstr affix) @ cstr keystring,
                 trimmed_key (take affixlen (cstr affix)) (cstr keystring)])"
proof -
  define key where "key = cstr keystring"
  define A where "A = take affixlen (cstr affix)"
  define a where "a = \<lparr>fa_handle = handle, fa_filename = filename, fa_partial = partial,
                    fa_affix = affix, fa_cache_rd = cache_rd, fa_opts = opts1\<rparr>"
  define mem :: memory where "mem = (\<lambda>b. []) (KEY := key @ [NUL])"
  define mem1 :: memory where "mem1 = mem(KEY2 := A @ key @ [NUL])"
  define T where "T = trimmed_key A key"
  define trim where "trim \<longleftrightarrow> count_dots key = partial \<and> y3 = None \<and> \<not> search_find_defer s3"
  have kn: "NUL \<notin> set key" by (simp add: key_def cstr_nonul)
  have An: "NUL \<notin> set A" using cstr_nonul[of affix] by (auto simp: A_def dest: in_set_takeD)
  have Tn: "NUL \<notin> set T" unfolding T_def by (rule trimmed_key_nonul[OF An kn])
  have lA: "length A = affixlen" using assms(3) by (simp add: A_def)
  have mk: "mem KEY = key @ [NUL]" by (simp add: mem_def)
  have al: "affixlen \<le> length (cstr (fa_affix a))" using assms(3) by (simp add: a_def)
  have Aa: "take affixlen (cstr (fa_affix a)) = A" by (simp add: a_def A_def)
  have buf: "write_bytes
           (write_bytes (mem(KEY2 := replicate (nat (Ustrlen (str_at mem (KEY, 0))) + affixlen + 1) NUL))
              (KEY2, 0) (strncpy_bytes (fa_affix a) affixlen))
           (KEY2, affixlen) (str_at mem (KEY, 0) @ [NUL]) = mem1"
    using key2_buffer[of affixlen affix mem key, OF assms(3) mk kn] by (simp add: mem1_def A_def a_def)
  have s0: "str_at mem1 (KEY2, 0) = A @ key"
    using An kn by (simp add: str_at_def mem1_def cstr_append2_NUL)
  have s1: "str_at mem1 (KEY2, affixlen) = key"
    using kn lA by (simp add: str_at_def mem1_def cstr_append_NUL)
  have isf: "internal_search_find env (fa_handle a) (fa_filename a) (A @ key) (fa_cache_rd a) (fa_opts a) s2
             = Inr (y3, s3)"
    using assms(9) by (simp add: a_def A_def key_def)
  obtain al1 mem2 k3b where
    pp: "partial_probe a KEY2 (next_dot mem1 (KEY2, affixlen)) affixlen mem1 = (al1, mem2, k3b)"
    by (cases "partial_probe a KEY2 (next_dot mem1 (KEY2, affixlen)) affixlen mem1") auto
  have nobrk: "\<not> (peek mem1 (KEY2, next_dot mem1 (KEY2, affixlen)) = NUL \<and> affixlen < 1)"
    using assms(2) by simp
  have bk: "KEY2 = KEY \<longrightarrow> affixlen = 0" by simp
  from partial_probe_KEY[OF pp bk nobrk] have m2k: "mem2 KEY = key @ [NUL]"
    by (simp add: mem1_def mem_def)
  have st: "str_at mem2 (KEY2, k3b) = T"
    unfolding T_def using probe_key[OF kn al assms(2), of mem al1 mem2 k3b] pp
    by (simp add: Aa mem1_def)
  define L where "L = partial_loop env a KEY2 (count_dots key) affixlen affixlen expand_setup mem1 s3"
  have ps: "partial_stage env a affixlen expand_setup mem s2 =
            (if search_find_defer s3 then Inr (True, None, False, expand_setup, mem1, s3)
             else if y3 \<noteq> None then Inr (False, y3, True, expand_setup, mem1, s3)
             else fbind L (\<lambda>(ret, yield, es, mem2, s2). Inr (ret, yield, False, es, mem2, s2)))"
    using assms(2) isf
    unfolding partial_stage_def Let_def buf L_def count_dots_def
    by (auto simp: s0 s1 fbind_def)
  have L1: "L = Inr (False, None, expand_setup, mem1, s3)" if "count_dots key < partial"
    unfolding L_def using that by (intro partial_loop_exit) (simp add: a_def)
  have L2: "L = (if search_find_defer s4 then Inr (True, None, expand_setup, mem2, s4)
                 else if y4 \<noteq> None then
                   (case partial_hit (KEY2, k3b) al1 expand_setup mem2 s4 of
                      (es, s5) \<Rightarrow> Inr (False, y4, es, mem2, s5))
                 else Inr (False, None, expand_setup, mem2, s4))" if tr: trim
  proof -
    from tr have ge: "count_dots key \<ge> fa_partial a" by (simp add: trim_def a_def)
    from tr assms(10) have i4: "internal_search_find env (fa_handle a) (fa_filename a) T
                                   (fa_cache_rd a) (fa_opts a) s3 = Inr (y4, s4)"
      by (simp add: trim_def a_def T_def A_def key_def)
    from tr have ex: "\<not> count_dots key - 1 \<ge> fa_partial a" by (simp add: trim_def a_def)
    note step = partial_loop_step[OF ge nobrk pp, of env expand_setup s3, folded L_def,
        unfolded st i4 sum.case prod.case]
    show ?thesis unfolding step by (simp add: partial_loop_exit[OF ex])
  qed
  have sfe: "search_find env handle filename keystring partial affix affixlen starflags expand_setup opts s =
          fbind (partial_stage env a affixlen expand_setup mem s2)
            (\<lambda>(ret, yield, set_null_wild, es, mem3, s3).
                  if ret then Inr (None, mem3 KEY, es, s3)
                  else search_find_defaults env a starflags ret_key set_null_wild yield es mem3 s3)"
    unfolding search_find_def assms(5) prod.case Let_def key_def[symmetric] mem_def[symmetric]
      a_def[symmetric]
    using assms(1,6,7,8)
    by (simp add: fbind_def)
  have main: "search_find env handle filename keystring partial affix affixlen starflags expand_setup opts s =
               (if search_find_defer s3 then Inr (None, key @ [NUL], expand_setup, s3)
                else if y3 \<noteq> None \<or> count_dots key < partial then
                  search_find_defaults env a starflags ret_key (y3 \<noteq> None) y3 expand_setup mem1 s3
                else if search_find_defer s4 then Inr (None, key @ [NUL], expand_setup, s4)
                else
                  (case (if y4 \<noteq> None then partial_hit (KEY2, k3b) al1 expand_setup mem2 s4
                              else (expand_setup, s4)) of
                          (es, s5) \<Rightarrow>
                            search_find_defaults env a starflags ret_key False y4 es mem2 s5))"
  proof (cases "search_find_defer s3 \<or> y3 \<noteq> None")
    case True
    then show ?thesis unfolding sfe ps by (auto simp: fbind_def mem1_def mem_def)
  next
    case False
    show ?thesis
    proof (cases "count_dots key < partial")
      case True
      with False show ?thesis unfolding sfe ps L1[OF True] by (simp add: fbind_def)
    next
      case nlt: False
      with assms(4) False have tr: trim by (simp add: trim_def key_def)
      from False nlt show ?thesis unfolding sfe ps L2[OF tr]
        by (auto simp: fbind_def m2k split: prod.splits)
    qed
  qed
  have lk3: "lookups s3 = lookups s1 @ [key, A @ key]"
    using internal_search_find_lookups[OF assms(7)] internal_search_find_lookups[OF assms(9)] An kn
    by (simp add: key_def[symmetric] A_def[symmetric] cstr_id)
  have lk4: "lookups s4 = lookups s1 @ [key, A @ key, T]" if tr: trim
  proof -
    from tr assms(10) have "internal_search_find env handle filename T cache_rd opts1 s3 = Inr (y4, s4)"
      by (simp add: trim_def T_def A_def key_def)
    from internal_search_find_lookups[OF this] lk3 Tn show ?thesis by (simp add: cstr_id)
  qed
  from main lk3 lk4 show ?thesis
    unfolding Let_def key_def[symmetric] A_def[symmetric] a_def[symmetric]
    by (simp add: pp[unfolded mem1_def mem_def] trim_def T_def mem1_def mem_def)
qed

text \<open>
  The claim as stated fails: with \<open>partial = 2\<close> the key \<open>a.b.c\<close> has exactly two dots,
  and after \<open>*.a.b.c\<close> the engine also looks up the trimmed \<open>*.b.c\<close>.
\<close>

theorem search_find_partial_boundary_counterexample:
  "count_dots ''a.b.c'' = 2 \<and>
   lookups (snd (snd (snd (projr (search_find ex_env ''1/a'' (Some ''/a'') ''a.b.c'' 2 ''*.'' 2 0
        (Some 0) None ex_state)))))
     = [''a.b.c'', ''*.a.b.c'', ''*.b.c'']"
  by code_simp

text \<open>
  With \<open>partial = 2\<close> and the affix \<open>*.\<close>: the key \<open>b.c\<close> has one dot and is looked up as
  \<open>b.c\<close> and \<open>*.b.c\<close>; the key \<open>a.b.c\<close> has two and is looked up as \<open>a.b.c\<close>, \<open>*.a.b.c\<close>
  and \<open>*.b.c\<close>.
\<close>

theorem search_find_partial_boundary_witness:
  "count_dots ''b.c'' = 1 \<and>
   lookups (snd (projr (internal_search_find ex_env ''1/a'' (Some ''/a'') ''*.b.c'' True None
             (snd (projr (internal_search_find ex_env ''1/a'' (Some ''/a'') ''b.c'' True None ex_state))))))
     = [''b.c'', ''*.b.c''] \<and>
   count_dots ''a.b.c'' = 2 \<and>
   trimmed_key ''*.'' ''a.b.c'' = ''*.b.c'' \<and>
   lookups (snd (projr (internal_search_find ex_env ''1/a'' (Some ''/a'') ''*.b.c'' True None
             (snd (projr (internal_search_find ex_env ''1/a'' (Some ''/a'') ''*.a.b.c'' True None
               (snd (projr (internal_search_find ex_env ''1/a'' (Some ''/a'') ''a.b.c'' True None
                  ex_state)))))))))
     = [''a.b.c'', ''*.a.b.c'', ''*.b.c'']"
proof -
  have h1: "(0::int) \<le> 2" and h2: "(0::nat) < 2" by simp_all
  have h3: "2 \<le> length (cstr ''*.'')" by code_simp
  have h5: "parse_opts None = (False, True, None)" by (simp add: parse_opts_def)
  have h6: "lru_promote ex_env ''1/a'' ex_state = Inr ex_state"
    by (simp add: lru_promote_def ex_state_def)
  have l0: "lookups ex_state = []" by (simp add: ex_state_def ex_init_def)
  have c3: "take 2 (cstr ''*.'') = ''*.''" by code_simp
  have a: "lookups (snd (projr (internal_search_find ex_env ''1/a'' (Some ''/a'') ''*.b.c'' True None
             (snd (projr (internal_search_find ex_env ''1/a'' (Some ''/a'') ''b.c'' True None ex_state))))))
     = [''b.c'', ''*.b.c'']"
  proof -
    define r2 where "r2 = internal_search_find ex_env ''1/a'' (Some ''/a'') ''b.c'' True None ex_state"
    define r3 where "r3 = internal_search_find ex_env ''1/a'' (Some ''/a'') ''*.b.c'' True None (snd (projr r2))"
    have i2: "\<not> isl r2" and f2: "fst (projr r2) = None" and nd2: "\<not> search_find_defer (snd (projr r2))"
      unfolding r2_def by code_simp+
    from i2 f2 have e2: "r2 = Inr (None, snd (projr r2))" by (rule Inr_collapse)
    have i3: "\<not> isl r3" and f3: "fst (projr r3) = None"
      unfolding r3_def r2_def by code_simp+
    from i3 f3 have e3: "r3 = Inr (None, snd (projr r3))" by (rule Inr_collapse)
    have c2: "cstr ''b.c'' = ''b.c''" by code_simp
    have d: "count_dots (cstr ''b.c'') = 1" by code_simp
    have h4: "count_dots (cstr ''b.c'') \<le> 2" by code_simp
    have h7: "internal_search_find ex_env ''1/a'' (Some ''/a'') ''b.c'' True None ex_state
              = Inr (None, snd (projr r2))"
      using e2 by (simp add: r2_def)
    have h9: "internal_search_find ex_env ''1/a'' (Some ''/a'') (take 2 (cstr ''*.'') @ cstr ''b.c'') True None
                (snd (projr r2)) = Inr (None, snd (projr r3))"
      using e3 by (simp only: c2 c3) (simp add: r3_def)
    have h10: "count_dots (cstr ''b.c'') = 2 \<and> (None::string option) = None \<and>
                 \<not> search_find_defer (snd (projr r3)) \<longrightarrow>
               internal_search_find ex_env ''1/a'' (Some ''/a'')
                 (trimmed_key (take 2 (cstr ''*.'')) (cstr ''b.c'')) True None (snd (projr r3))
               = Inr (None, ex_state)"
      by (simp add: d)
    note T = search_find_partial_boundary[OF h1 h2 h3 h4 h5 h6 h7 nd2 h9 h10,
        where starflags = 0 and expand_setup = "Some 0", unfolded Let_def,
        THEN conjunct2, THEN conjunct1, unfolded c2 c3]
    from T l0 show ?thesis by (simp add: r3_def r2_def)
  qed
  have b: "lookups (snd (projr (internal_search_find ex_env ''1/a'' (Some ''/a'') ''*.b.c'' True None
             (snd (projr (internal_search_find ex_env ''1/a'' (Some ''/a'') ''*.a.b.c'' True None
               (snd (projr (internal_search_find ex_env ''1/a'' (Some ''/a'') ''a.b.c'' True None
                  ex_state)))))))))
     = [''a.b.c'', ''*.a.b.c'', ''*.b.c'']"
  proof -
    define r2 where "r2 = internal_search_find ex_env ''1/a'' (Some ''/a'') ''a.b.c'' True None ex_state"
    define r3 where "r3 = internal_search_find ex_env ''1/a'' (Some ''/a'') ''*.a.b.c'' True None (snd (projr r2))"
    define r4 where "r4 = internal_search_find ex_env ''1/a'' (Some ''/a'') ''*.b.c'' True None (snd (projr r3))"
    have i2: "\<not> isl r2" and f2: "fst (projr r2) = None" and nd2: "\<not> search_find_defer (snd (projr r2))"
      unfolding r2_def by code_simp+
    from i2 f2 have e2: "r2 = Inr (None, snd (projr r2))" by (rule Inr_collapse)
    have i3: "\<not> isl r3" and f3: "fst (projr r3) = None" and nd3: "\<not> search_find_defer (snd (projr r3))"
      unfolding r3_def r2_def by code_simp+
    from i3 f3 have e3: "r3 = Inr (None, snd (projr r3))" by (rule Inr_collapse)
    have i4: "\<not> isl r4" and f4: "fst (projr r4) = None"
      unfolding r4_def r3_def r2_def by code_simp+
    from i4 f4 have e4: "r4 = Inr (None, snd (projr r4))" by (rule Inr_collapse)
    have c2: "cstr ''a.b.c'' = ''a.b.c''" by code_simp
    have d: "count_dots (cstr ''a.b.c'') = 2" by code_simp
    have h4: "count_dots (cstr ''a.b.c'') \<le> 2" by code_simp
    have tk: "trimmed_key ''*.'' ''a.b.c'' = ''*.b.c''" by code_simp
    have h7: "internal_search_find ex_env ''1/a'' (Some ''/a'') ''a.b.c'' True None ex_state
              = Inr (None, snd (projr r2))"
      using e2 by (simp add: r2_def)
    have h9: "internal_search_find ex_env ''1/a'' (Some ''/a'') (take 2 (cstr ''*.'') @ cstr ''a.b.c'') True None
                (snd (projr r2)) = Inr (None, snd (projr r3))"
      using e3 by (simp only: c2 c3) (simp add: r3_def)
    have h10: "count_dots (cstr ''a.b.c'') = 2 \<and> (None::string option) = None \<and>
                 \<not> search_find_defer (snd (projr r3)) \<longrightarrow>
               internal_search_find ex_env ''1/a'' (Some ''/a'')
                 (trimmed_key (take 2 (cstr ''*.'')) (cstr ''a.b.c'')) True None (snd (projr r3))
               = Inr (None, snd (projr r4))"
      using e4 by (simp only: c2 c3 tk) (simp add: r4_def)
    note T = search_find_partial_boundary[OF h1 h2 h3 h4 h5 h6 h7 nd2 h9 h10,
        where starflags = 0 and expand_setup = "Some 0", unfolded Let_def,
        THEN conjunct2, THEN conjunct2, unfolded c2 c3 tk]
    have d2: "count_dots ''a.b.c'' = 2" by code_simp
    from T d2 nd3 l0 show ?thesis by (simp add: r4_def r3_def r2_def)
  qed
  have "count_dots ''b.c'' = 1" and "count_dots ''a.b.c'' = 2"
    and "trimmed_key ''*.'' ''a.b.c'' = ''*.b.c''" by code_simp+
  with a b show ?thesis by simp
qed

subsection \<open>The *@ default\<close>






section \<open>The limit on open files and the chain\<close>

lemma lastopt_simps [simp]: "lastopt [] = None" "lastopt (xs @ [x]) = Some x"
  "lastopt (x # xs) = Some (last (x # xs))"
  by (simp_all add: lastopt_def)

lemma dchl_frame:
  "(\<And>x. x \<in> set xs \<Longrightarrow> L' x = L x) \<Longrightarrow> dchl L' prev xs nxt = dchl L prev xs nxt"
  by (induction xs arbitrary: prev) simp_all

lemma dchl_append:
  "dchl L prev (as @ bs) nxt \<longleftrightarrow>
     dchl L prev as (orelse (hdopt bs) nxt) \<and> dchl L (orelse (lastopt as) prev) bs nxt"
proof (induction as arbitrary: prev)
  case Nil show ?case by simp
next
  case (Cons a as)
  have h: "orelse (hdopt (as @ bs)) nxt = orelse (hdopt as) (orelse (hdopt bs) nxt)"
    by (cases as) simp_all
  have l: "orelse (lastopt (a # as)) prev = orelse (lastopt as) (Some a)"
    by (cases as) (simp_all add: lastopt_def)
  show ?case using Cons.IH[of "Some a"] by (simp only: append_Cons dchl.simps h l) blast
qed

lemma dchl_dom: "dchl L prev xs nxt \<Longrightarrow> x \<in> set xs \<Longrightarrow> L x \<noteq> None"
  by (induction xs arbitrary: prev) auto

lemma dchl_set_prev:
  assumes "dchl L prev (x # xs) nxt" and "x \<notin> set xs"
  shows "dchl (L(x \<mapsto> (p, snd (the (L x))))) p (x # xs) nxt"
proof -
  have "dchl (L(x \<mapsto> (p, snd (the (L x))))) (Some x) xs nxt = dchl L (Some x) xs nxt"
    using assms(2) by (intro dchl_frame) auto
  with assms(1) show ?thesis by simp
qed

lemma dchl_set_next:
  "dchl L prev xs nxt \<Longrightarrow> xs \<noteq> [] \<Longrightarrow> distinct xs \<Longrightarrow>
   dchl (L(last xs \<mapsto> (fst (the (L (last xs))), n))) prev xs n"
proof (induction xs arbitrary: prev)
  case Nil then show ?case by simp
next
  case (Cons x xs)
  show ?case
  proof (cases "xs = []")
    case True
    with Cons.prems show ?thesis by simp
  next
    case False
    with Cons.prems have ne: "x \<noteq> last xs" and d: "distinct xs" by auto
    from Cons.prems(1) have "dchl L (Some x) xs nxt" by simp
    from Cons.IH[OF this False d]
    have r: "dchl (L(last xs \<mapsto> (fst (the (L (last xs))), n))) (Some x) xs n" .
    from False have hd: "orelse (hdopt xs) n = orelse (hdopt xs) nxt" by (cases xs) simp_all
    from Cons.prems(1) have lx: "L x = Some (prev, orelse (hdopt xs) nxt)" by simp
    from False have la: "last (x # xs) = last xs" by simp
    have "(L(last xs \<mapsto> (fst (the (L (last xs))), n))) x = Some (prev, orelse (hdopt xs) n)"
      using ne lx hd by simp
    with r show ?thesis unfolding la by (simp only: dchl.simps simp_thms)
  qed
qed

lemma lru_same_refl [simp]: "lru_same s s"
  by (simp add: lru_same_def)

lemma lru_same_trans: "lru_same s s1 \<Longrightarrow> lru_same s1 s2 \<Longrightarrow> lru_same s s2"
  by (simp add: lru_same_def)

lemma internal_search_find_same:
  "internal_search_find env h f k rd opts s = Inr (y, s') \<Longrightarrow> lru_same s s'"
  by (auto simp: internal_search_find_def Let_def fbind_def lru_same_def skel_def
           split: option.splits if_splits sum.splits prod.splits)

lemma set_expand_same: "set_expand es v1 v2 s = (es', s') \<Longrightarrow> lru_same s s'"
  by (auto simp: set_expand_def lru_same_def split: option.splits if_splits)

lemma partial_hit_same: "partial_hit p al es mem s = (es', s') \<Longrightarrow> lru_same s s'"
  by (auto simp: partial_hit_def Let_def dest: set_expand_same)

lemma partial_loop_same:
  "partial_loop env a b dotcount k3 affixlen es mem s = Inr (ret, y, es', mem', s') \<Longrightarrow> lru_same s s'"
proof (induction env a b dotcount k3 affixlen es mem s rule: partial_loop.induct)
  case (1 env a b dotcount k3 affixlen es mem s)
  show ?case
  proof (cases "dotcount \<ge> fa_partial a")
    case False
    with "1.prems"(1) show ?thesis by (simp add: partial_loop_exit)
  next
    case True
    show ?thesis
    proof (cases "peek mem (b, next_dot mem (b, k3)) = NUL \<and> affixlen < 1")
      case brk: True
      with True "1.prems"(1) show ?thesis by (simp add: partial_loop_break)
    next
      case nobrk: False
      obtain affixlen1 mem1 k3b where
        t: "partial_probe a b (next_dot mem (b, k3)) affixlen mem = (affixlen1, mem1, k3b)"
        by (cases "partial_probe a b (next_dot mem (b, k3)) affixlen mem") auto
      note step = partial_loop_step[OF True nobrk t, of env es s]
      show ?thesis
      proof (cases "internal_search_find env (fa_handle a) (fa_filename a) (str_at mem1 (b, k3b))
                        (fa_cache_rd a) (fa_opts a) s")
        case (Inl e)
        with step "1.prems"(1) show ?thesis by simp
      next
        case (Inr r)
        obtain yield s1 where r: "r = (yield, s1)" by (cases r) auto
        from Inr r have isf: "internal_search_find env (fa_handle a) (fa_filename a) (str_at mem1 (b, k3b))
                        (fa_cache_rd a) (fa_opts a) s = Inr (yield, s1)" by simp
        note s1 = internal_search_find_same[OF isf]
        show ?thesis
        proof (cases "search_find_defer s1")
          case True
          with step isf "1.prems"(1) s1 show ?thesis by auto
        next
          case nd: False
          show ?thesis
          proof (cases "yield \<noteq> None")
            case True
            obtain es2 s2 where ph: "partial_hit (b, k3b) affixlen1 es mem1 s1 = (es2, s2)"
              by (cases "partial_hit (b, k3b) affixlen1 es mem1 s1") auto
            with step isf "1.prems"(1) nd True have "s' = s2" by auto
            with partial_hit_same[OF ph] s1 show ?thesis by (auto intro: lru_same_trans)
          next
            case yn: False
            with step isf "1.prems"(1) nd
            have rec: "partial_loop env a b (dotcount - 1) (k3b + affixlen1) affixlen1 es mem1 s1
                     = Inr (ret, y, es', mem', s')"
              by simp
            have "lru_same s1 s'"
              by (rule "1.IH"[OF True nobrk t[symmetric] refl isf refl nd yn rec])
            with s1 show ?thesis by (rule lru_same_trans)
          qed
        qed
      qed
    qed
  qed
qed

lemma partial_stage_same:
  "partial_stage env a affixlen es mem s = Inr (ret, y, snw, es', mem', s') \<Longrightarrow> lru_same s s'"
  unfolding partial_stage_def Let_def
  by (auto simp: fbind_def split: sum.splits prod.splits if_splits
           dest!: internal_search_find_same partial_loop_same intro: lru_same_trans)

lemma starat_stage_same:
  "starat_stage env a starflags yield es mem s = Inr (ret, y, es', mem', s') \<Longrightarrow> lru_same s s'"
  unfolding starat_stage_def Let_def
  by (auto simp: fbind_def split: sum.splits prod.splits if_splits option.splits
           dest!: internal_search_find_same set_expand_same intro: lru_same_trans)

lemma star_stage_same:
  "star_stage env a starflags yield es mem s = Inr (y, es', s') \<Longrightarrow> lru_same s s'"
  unfolding star_stage_def Let_def
  by (auto simp: fbind_def split: sum.splits prod.splits if_splits option.splits
           dest!: internal_search_find_same set_expand_same intro: lru_same_trans)

lemma search_find_defaults_same:
  "search_find_defaults env a starflags rk snw yield es mem s = Inr (y, k, es', s') \<Longrightarrow> lru_same s s'"
  unfolding search_find_defaults_def Let_def
  by (auto simp: fbind_def split: sum.splits prod.splits if_splits option.splits
           dest!: starat_stage_same star_stage_same set_expand_same intro: lru_same_trans)

lemma search_find_same:
  assumes "search_find env h f k partial affix affixlen starflags es opts s = Inr (y, kb, es', s')"
  shows "\<exists>s1. lru_promote env h s = Inr s1 \<and> lru_same s1 s'"
proof -
  obtain ret_key cache_rd opts1 where po: "parse_opts opts = (ret_key, cache_rd, opts1)"
    by (cases "parse_opts opts") auto
  from assms show ?thesis
    unfolding search_find_def po prod.case Let_def
    by (auto simp: fbind_def split: sum.splits prod.splits if_splits
             dest!: internal_search_find_same partial_stage_same search_find_defaults_same
             intro: lru_same_trans)
qed

lemma modify_node_Some:
  "search_tree s n = Some c \<Longrightarrow>
   modify_node n f s = Inr (s\<lparr>search_tree := (search_tree s)(n \<mapsto> f c)\<rparr>)"
  by (simp add: modify_node_def)

lemma lmap_upd: "lmap (t(n \<mapsto> c)) = (lmap t)(n \<mapsto> links c)"
  by (auto simp: lmap_def fun_eq_iff)

lemma lmap_Some: "t n = Some c \<Longrightarrow> lmap t n = Some (sc_up c, sc_down c)"
  by (simp add: lmap_def links_def)

lemma lmap_dom: "lmap t n \<noteq> None \<Longrightarrow> \<exists>c. t n = Some c"
  by (cases "t n") (auto simp: lmap_def)

lemma relinked_upd_up:
  "search_tree s n = Some c \<Longrightarrow>
   map_option payload (((search_tree s)(n \<mapsto> c\<lparr>sc_up := u\<rparr>)) m) = map_option payload (search_tree s m)"
  by (simp add: payload_def)

lemma lru_promote_pending:
  assumes ch: "lru_chain s xs" and nin: "h \<notin> set xs"
    and c: "search_tree s h = Some c" and up: "sc_up c = None"
    and lk: "lookup_entry env (Uhead h - 48) = Inr lk" and ty: "li_type lk = lookup_absfile"
  shows "\<exists>s'. lru_promote env h s = Inr s' \<and> lru_chain s' (h # xs) \<and> relinked s s'"
proof (cases xs)
  case Nil
  with ch have top: "open_top s = None" by (simp add: lru_chain_def)
  define s' where "s' = s\<lparr>search_tree := (search_tree s)(h \<mapsto> c\<lparr>sc_up := None, sc_down := None\<rparr>),
                          open_bot := Some h, open_top := Some h\<rparr>"
  have "lru_promote env h s = Inr s'"
    using top c up lk ty
    by (simp add: lru_promote_def fbind_def modify_node_def Let_def s'_def)
  moreover have "lru_chain s' [h]"
    by (simp add: lru_chain_def s'_def lmap_upd links_def)
  moreover have "relinked s s'"
    using c by (auto simp: relinked_def s'_def payload_def)
  ultimately show ?thesis using Nil by auto
next
  case (Cons tp xs')
  from ch Cons have top: "open_top s = Some tp" and d: "distinct xs"
    and dl: "dchl (lmap (search_tree s)) None (tp # xs') None"
    and bot: "open_bot s = lastopt xs"
    by (simp_all add: lru_chain_def)
  from nin Cons have ne: "tp \<noteq> h" by auto
  from dchl_dom[OF dl, of tp] have "lmap (search_tree s) tp \<noteq> None" by simp
  from lmap_dom[OF this] obtain ct where ct: "search_tree s tp = Some ct" by blast
  define t3 where "t3 = (search_tree s)(h \<mapsto> c\<lparr>sc_up := None, sc_down := Some tp\<rparr>)"
  define t4 where "t4 = t3(tp \<mapsto> ct\<lparr>sc_up := Some h\<rparr>)"
  define s' where "s' = s\<lparr>search_tree := t4, open_top := Some h\<rparr>"
  have "lru_promote env h s = Inr s'"
    using top c up lk ty ne ct
    by (simp add: lru_promote_def fbind_def modify_node_def Let_def s'_def t4_def t3_def)
  moreover have "lru_chain s' (h # xs)"
  proof -
    have f3: "dchl (lmap t3) None (tp # xs') None = dchl (lmap (search_tree s)) None (tp # xs') None"
      using nin Cons by (intro dchl_frame) (auto simp: t3_def lmap_upd)
    have l3: "lmap t3 tp = Some (sc_up ct, sc_down ct)"
      using ne ct by (simp add: t3_def lmap_upd lmap_Some)
    have "lmap t4 = (lmap t3)(tp \<mapsto> (Some h, snd (the (lmap t3 tp))))"
      by (simp add: t4_def lmap_upd links_def l3)
    moreover from d Cons have "tp \<notin> set xs'" by simp
    ultimately have "dchl (lmap t4) (Some h) (tp # xs') None"
      using dchl_set_prev[of "lmap t3" None tp xs' None "Some h"] f3 dl by simp
    moreover have "lmap t4 h = Some (None, Some tp)"
      using ne by (simp add: t4_def t3_def lmap_upd links_def)
    ultimately show ?thesis
      using Cons d nin bot by (simp add: lru_chain_def s'_def lastopt_def)
  qed
  moreover have "relinked s s'"
    using c ct ne by (auto simp: relinked_def s'_def t4_def t3_def payload_def)
  ultimately show ?thesis by auto
qed

lemma relinked_refl [simp]: "relinked s s"
  by (simp add: relinked_def)

lemma relinked_trans: "relinked s s1 \<Longrightarrow> relinked s1 s2 \<Longrightarrow> relinked s s2"
  by (simp add: relinked_def)

lemma relinked_top [simp]: "relinked s (s1\<lparr>open_top := p\<rparr>) = relinked s s1"
  by (simp add: relinked_def)

lemma relinked_bot [simp]: "relinked s (s1\<lparr>open_bot := p\<rparr>) = relinked s s1"
  by (simp add: relinked_def)

lemma modify_up:
  assumes "lmap (search_tree s) n \<noteq> None"
  shows "\<exists>s'. modify_node n (\<lambda>c. c\<lparr>sc_up := u\<rparr>) s = Inr s' \<and> relinked s s' \<and>
           lmap (search_tree s') = set_up (lmap (search_tree s)) n u \<and>
           open_top s' = open_top s \<and> open_bot s' = open_bot s"
proof -
  from lmap_dom[OF assms] obtain c where c: "search_tree s n = Some c" by blast
  then show ?thesis
    by (auto simp: modify_node_def relinked_def payload_def set_up_def lmap_upd links_def lmap_Some)
qed

lemma modify_down:
  assumes "lmap (search_tree s) n \<noteq> None"
  shows "\<exists>s'. modify_node n (\<lambda>c. c\<lparr>sc_down := d\<rparr>) s = Inr s' \<and> relinked s s' \<and>
           lmap (search_tree s') = set_down (lmap (search_tree s)) n d \<and>
           open_top s' = open_top s \<and> open_bot s' = open_bot s"
proof -
  from lmap_dom[OF assms] obtain c where c: "search_tree s n = Some c" by blast
  then show ?thesis
    by (auto simp: modify_node_def relinked_def payload_def set_down_def lmap_upd links_def lmap_Some)
qed

lemma modify_both:
  assumes "lmap (search_tree s) n \<noteq> None"
  shows "\<exists>s'. modify_node n (\<lambda>c. c\<lparr>sc_up := u, sc_down := d\<rparr>) s = Inr s' \<and> relinked s s' \<and>
           lmap (search_tree s') = (lmap (search_tree s))(n \<mapsto> (u, d)) \<and>
           open_top s' = open_top s \<and> open_bot s' = open_bot s"
proof -
  from lmap_dom[OF assms] obtain c where c: "search_tree s n = Some c" by blast
  then show ?thesis
    by (auto simp: modify_node_def relinked_def payload_def lmap_upd links_def)
qed

lemma set_up_dom [simp]: "set_up L n u m \<noteq> None \<longleftrightarrow> m = n \<or> L m \<noteq> None"
  by (simp add: set_up_def)

lemma set_down_dom [simp]: "set_down L n u m \<noteq> None \<longleftrightarrow> m = n \<or> L m \<noteq> None"
  by (simp add: set_down_def)

lemma set_up_other [simp]: "m \<noteq> n \<Longrightarrow> set_up L n u m = L m"
  by (simp add: set_up_def)

lemma set_down_other [simp]: "m \<noteq> n \<Longrightarrow> set_down L n u m = L m"
  by (simp add: set_down_def)

lemma dchl_set_up: "dchl L prev (x # xs) nxt \<Longrightarrow> x \<notin> set xs \<Longrightarrow> dchl (set_up L x p) p (x # xs) nxt"
  unfolding set_up_def by (rule dchl_set_prev)

lemma dchl_set_down:
  "dchl L prev xs nxt \<Longrightarrow> xs \<noteq> [] \<Longrightarrow> distinct xs \<Longrightarrow> dchl (set_down L (last xs) n) prev xs n"
  unfolding set_down_def by (rule dchl_set_next)

lemma dchl_frame_up: "n \<notin> set xs \<Longrightarrow> dchl (set_up L n u) prev xs nxt = dchl L prev xs nxt"
  by (rule dchl_frame) (auto simp: set_up_def)

lemma dchl_frame_down: "n \<notin> set xs \<Longrightarrow> dchl (set_down L n u) prev xs nxt = dchl L prev xs nxt"
  by (rule dchl_frame) (auto simp: set_down_def)

lemma dchl_frame_upd: "n \<notin> set xs \<Longrightarrow> dchl (L(n \<mapsto> v)) prev xs nxt = dchl L prev xs nxt"
  by (rule dchl_frame) auto

lemma lru_promote_middle:
  assumes ch: "lru_chain s (as @ h # bs)" and ne: "as \<noteq> []"
    and lk: "lookup_entry env (Uhead h - 48) = Inr lk" and ty: "li_type lk = lookup_absfile"
  shows "\<exists>s'. lru_promote env h s = Inr s' \<and> lru_chain s' (h # as @ bs) \<and> relinked s s'"
proof -
  define L where "L = lmap (search_tree s)"
  define u where "u = last as"
  define tp where "tp = hd as"
  from ne obtain as' where as: "as = tp # as'" by (cases as) (auto simp: tp_def)
  from ch have dist: "distinct (as @ h # bs)" and dl: "dchl L None (as @ h # bs) None"
    and top: "open_top s = Some tp" and bot: "open_bot s = lastopt (as @ h # bs)"
    using ne by (auto simp: lru_chain_def L_def as)
  from dist have das: "distinct as" and dbs: "distinct bs" and has: "h \<notin> set as" and hbs: "h \<notin> set bs"
    and disj: "set as \<inter> set bs = {}" by auto
  from ne have uin: "u \<in> set as" by (simp add: u_def)
  from as have tpin: "tp \<in> set as" by simp
  from uin has have uh: "u \<noteq> h" by auto
  from tpin has have tph: "tp \<noteq> h" by auto
  from uin disj have ubs: "u \<notin> set bs" by auto
  have lo: "orelse (lastopt as) None = Some u" using ne by (simp add: lastopt_def u_def)
  from dl have A: "dchl L None as (Some h)" and Lh: "L h = Some (Some u, hdopt bs)"
    and B: "dchl L (Some h) bs None"
    by (auto simp: dchl_append lo) (cases bs; simp)+
  from lmap_dom[of "search_tree s" h] Lh obtain c where c: "search_tree s h = Some c"
    by (auto simp: L_def)
  with Lh have up: "sc_up c = Some u" and down: "sc_down c = hdopt bs"
    by (simp_all add: L_def lmap_Some)
  have Lu: "L u \<noteq> None" using dchl_dom[OF A uin] .
  \<comment> \<open>step 1: cut\<close>
  from modify_down[of s u "hdopt bs"] Lu obtain s1 where
    m1: "modify_node u (\<lambda>c. c\<lparr>sc_down := hdopt bs\<rparr>) s = Inr s1" and r1: "relinked s s1"
    and L1: "lmap (search_tree s1) = set_down L u (hdopt bs)"
    and t1: "open_top s1 = open_top s" and b1: "open_bot s1 = open_bot s"
    by (auto simp: L_def)
  have A1: "dchl (set_down L u (hdopt bs)) None as (hdopt bs)"
    using dchl_set_down[OF A ne das] by (simp add: u_def)
  have B1: "dchl (set_down L u (hdopt bs)) (Some h) bs None"
    using B ubs by (simp add: dchl_frame_down)
  obtain s2 where
    m2: "(case hdopt bs of Some d \<Rightarrow> modify_node d (\<lambda>cd. cd\<lparr>sc_up := Some u\<rparr>) s1
          | None \<Rightarrow> Inr (s1\<lparr>open_bot := Some u\<rparr>)) = Inr s2"
    and r2: "relinked s s2" and t2: "open_top s2 = Some tp"
    and b2: "open_bot s2 = lastopt (as @ bs)"
    and C2: "dchl (lmap (search_tree s2)) None (as @ bs) None"
    and h2: "lmap (search_tree s2) h \<noteq> None"
  proof (cases bs)
    case Nil
    show ?thesis
    proof (rule that[of "s1\<lparr>open_bot := Some u\<rparr>"])
      show "dchl (lmap (search_tree (s1\<lparr>open_bot := Some u\<rparr>))) None (as @ bs) None"
        using A1 Nil by (simp add: L1)
      show "lmap (search_tree (s1\<lparr>open_bot := Some u\<rparr>)) h \<noteq> None"
        using Lh uh by (simp add: L1)
    qed (use Nil r1 t1 top ne in \<open>simp_all add: lastopt_def u_def\<close>)
  next
    case (Cons d bs')
    from Cons disj uin have du: "d \<noteq> u" by auto
    from Cons dbs have dn: "d \<notin> set bs'" by simp
    from Cons disj have das': "d \<notin> set as" by auto
    from Cons hbs have dh: "d \<noteq> h" by auto
    have "lmap (search_tree s1) d \<noteq> None"
      using dchl_dom[OF B, of d] Cons du by (simp add: L1)
    from modify_up[OF this, of "Some u"] obtain s2 where
      m: "modify_node d (\<lambda>c. c\<lparr>sc_up := Some u\<rparr>) s1 = Inr s2" and r: "relinked s1 s2"
      and L2: "lmap (search_tree s2) = set_up (set_down L u (hdopt bs)) d (Some u)"
      and t: "open_top s2 = open_top s1" and b: "open_bot s2 = open_bot s1"
      by (auto simp: L1)
    show ?thesis
    proof (rule that[of s2])
      have "dchl (lmap (search_tree s2)) (Some u) (d # bs') None"
        unfolding L2 using B1 Cons dn by (intro dchl_set_up) simp_all
      moreover have "dchl (lmap (search_tree s2)) None as (Some d)"
        unfolding L2 using A1 Cons das' by (simp add: dchl_frame_up)
      ultimately show "dchl (lmap (search_tree s2)) None (as @ bs) None"
        using Cons by (simp add: dchl_append lo)
      show "lmap (search_tree s2) h \<noteq> None"
        using Lh uh dh by (simp add: L2)
      show "open_bot s2 = lastopt (as @ bs)"
        using b b1 bot Cons by (simp add: lastopt_def)
    qed (use Cons m r r1 t t1 top in \<open>auto intro: relinked_trans\<close>)
  qed
  \<comment> \<open>step 2: the node itself\<close>
  from modify_both[OF h2, where u = None and d = "Some tp"] obtain s3 where
    m3: "modify_node h (\<lambda>c. c\<lparr>sc_up := None, sc_down := Some tp\<rparr>) s2 = Inr s3"
    and r3: "relinked s2 s3"
    and L3: "lmap (search_tree s3) = (lmap (search_tree s2))(h \<mapsto> (None, Some tp))"
    and t3: "open_top s3 = open_top s2" and b3: "open_bot s3 = open_bot s2"
    by auto
  have hab: "h \<notin> set (as @ bs)" using has hbs by simp
  have C3: "dchl (lmap (search_tree s3)) None (as @ bs) None"
    unfolding L3 using C2 hab by (simp add: dchl_frame_upd)
  \<comment> \<open>step 3: the old top\<close>
  have "lmap (search_tree s3) tp \<noteq> None"
    using dchl_dom[OF C3, of tp] tpin by simp
  from modify_up[OF this, of "Some h"] obtain s4 where
    m4: "modify_node tp (\<lambda>c. c\<lparr>sc_up := Some h\<rparr>) s3 = Inr s4" and r4: "relinked s3 s4"
    and L4: "lmap (search_tree s4) = set_up (lmap (search_tree s3)) tp (Some h)"
    and t4: "open_top s4 = open_top s3" and b4: "open_bot s4 = open_bot s3"
    by auto
  have tpn: "tp \<notin> set (as' @ bs)" using dist as by auto
  have C4: "dchl (lmap (search_tree s4)) (Some h) (tp # as' @ bs) None"
    unfolding L4 using C3 tpn by (intro dchl_set_up) (simp_all add: as)
  have H4: "lmap (search_tree s4) h = Some (None, Some tp)"
    using tph by (simp add: L4 L3)
  have "lru_promote env h s = Inr (s4\<lparr>open_top := Some h\<rparr>)"
    using top tph lk ty c up down m1 m2 m3 m4 t2 t3
    by (simp add: lru_promote_def fbind_def Let_def)
  moreover have "lru_chain (s4\<lparr>open_top := Some h\<rparr>) (h # as @ bs)"
    using dist C4 H4 b4 b3 b2 by (auto simp: lru_chain_def as lastopt_def)
  moreover have "relinked s (s4\<lparr>open_top := Some h\<rparr>)"
    using r2 r3 r4 by (auto intro: relinked_trans)
  ultimately show ?thesis by blast
qed

lemma lmap_handle_upd:
  "t b = Some cb \<Longrightarrow> lmap (t(b \<mapsto> cb\<lparr>sc_handle := h\<rparr>)) = lmap t"
  by (auto simp: lmap_def links_def fun_eq_iff)

lemma close_lru_chain:
  assumes ch: "lru_chain s xs" and ne: "xs \<noteq> []" and cl: "close_lru env (last xs) s = Inr s'"
  shows "lru_chain s' (butlast xs) \<and> open_filecount s' = open_filecount s - 1 \<and>
         tree_nodes s' = tree_nodes s \<and>
         (\<exists>c. search_tree s (last xs) = Some c \<and>
              search_tree s' (last xs) = Some (c\<lparr>sc_handle := None, sc_down := None\<rparr>) \<and>
              hook_calls s' = hook_calls s @ [CallClose (sc_search_type c) (sc_handle c)]) \<and>
         (\<forall>n. n \<noteq> last xs \<longrightarrow> map_option payload (search_tree s' n) = map_option payload (search_tree s n))"
proof -
  define b where "b = last xs"
  define as where "as = butlast xs"
  from ne have xs: "xs = as @ [b]" by (simp add: as_def b_def)
  define L where "L = lmap (search_tree s)"
  from ch have dist: "distinct (as @ [b])" and dl: "dchl L None (as @ [b]) None"
    and top: "open_top s = hdopt (as @ [b])" and bot: "open_bot s = Some b"
    by (simp_all add: lru_chain_def xs L_def)
  from dl have A: "dchl L None as (Some b)" and Lb: "L b = Some (orelse (lastopt as) None, None)"
    by (simp_all add: dchl_append)
  from lmap_dom[of "search_tree s" b] Lb obtain c where c: "search_tree s b = Some c"
    by (auto simp: L_def)
  with Lb have up: "sc_up c = orelse (lastopt as) None" and down: "sc_down c = None"
    by (simp_all add: L_def lmap_Some)
  from dist have das: "distinct as" and bas: "b \<notin> set as" by auto
  obtain s1 where
    m1: "(case sc_up c of
            Some u \<Rightarrow> modify_node u (\<lambda>cu. cu\<lparr>sc_down := None\<rparr>) (s\<lparr>open_bot := Some u\<rparr>)
          | None \<Rightarrow> Inr (s\<lparr>open_bot := None, open_top := None\<rparr>)) = Inr s1"
    and c1: "lru_chain s1 as" and r1: "relinked s s1" and b1: "search_tree s1 b = Some c"
    and w1: "world s1 = world s"
  proof (cases as rule: rev_cases)
    case Nil
    show ?thesis
      by (rule that[of "s\<lparr>open_bot := None, open_top := None\<rparr>"])
         (use Nil up c in \<open>simp_all add: lru_chain_def\<close>)
  next
    case (snoc as' u)
    then have upu: "sc_up c = Some u" using up by simp
    from snoc have uin: "u \<in> set as" and lu: "last as = u" and ane: "as \<noteq> []" by simp_all
    from uin bas have ub: "u \<noteq> b" by auto
    have "lmap (search_tree (s\<lparr>open_bot := Some u\<rparr>)) u \<noteq> None"
      using dchl_dom[OF A uin] by (simp add: L_def)
    from modify_down[OF this, of None] obtain s1 where
      m: "modify_node u (\<lambda>c. c\<lparr>sc_down := None\<rparr>) (s\<lparr>open_bot := Some u\<rparr>) = Inr s1"
      and r: "relinked (s\<lparr>open_bot := Some u\<rparr>) s1"
      and L1: "lmap (search_tree s1) = set_down L u None"
      and t: "open_top s1 = open_top s" and bt: "open_bot s1 = Some u"
      by (auto simp: L_def)
    show ?thesis
    proof (rule that[of s1])
      have d: "dchl (set_down L u None) None as None"
        using dchl_set_down[OF A ane das, of None] by (simp only: lu)
      have hd: "hdopt (as @ [b]) = hdopt as" using ane by (cases as) simp_all
      have la: "lastopt as = Some u" using ane lu by (simp add: lastopt_def)
      show "lru_chain s1 as"
        using d das t bt top by (simp add: lru_chain_def L1 hd la)
      show "relinked s s1" using r by (simp add: relinked_def)
      show "search_tree s1 b = Some c"
        using m c ub by (auto simp: modify_node_def split: option.splits)
      show "world s1 = world s"
        using m by (auto simp: modify_node_def split: option.splits)
    qed (use upu m in simp)
  qed
  from cl c m1 obtain lkc closehook where
    le: "lookup_entry env (sc_search_type c) = Inr lkc" and lc: "li_close lkc = Some closehook"
    and s': "s' = (s1\<lparr>world := closehook (sc_handle c) (world s1),
                     hook_calls := hook_calls s1 @ [CallClose (sc_search_type c) (sc_handle c)],
                     search_tree := (search_tree s1)(b \<mapsto> c\<lparr>sc_handle := None\<rparr>)\<rparr>)
                   \<lparr>open_filecount := open_filecount s1 - 1\<rparr>"
    using b1
    by (auto simp: close_lru_def b_def[symmetric] fbind_def modify_node_def
             split: sum.splits option.splits)
  have lm: "lmap (search_tree s') = lmap (search_tree s1)"
    using b1 by (simp add: s' lmap_handle_upd)
  have "lru_chain s' as"
    using c1 unfolding lru_chain_def lm by (simp add: s')
  moreover have "open_filecount s' = open_filecount s - 1" "tree_nodes s' = tree_nodes s"
    using r1 by (simp_all add: s' relinked_def)
  moreover have "search_tree s' b = Some (c\<lparr>sc_handle := None, sc_down := None\<rparr>)"
    using down by (simp add: s')
  moreover have "hook_calls s' = hook_calls s @ [CallClose (sc_search_type c) (sc_handle c)]"
    using r1 by (simp add: s' relinked_def)
  moreover have "\<forall>n. n \<noteq> b \<longrightarrow> map_option payload (search_tree s' n) = map_option payload (search_tree s n)"
    using r1 by (simp add: s' relinked_def)
  ultimately show ?thesis using c by (simp add: b_def as_def)
qed

lemma skel_links: "map_option skel a = map_option skel b \<Longrightarrow> map_option links a = map_option links b"
  by (cases a; cases b) (auto simp: skel_def links_def)

lemma lru_same_lmap: "lru_same s s' \<Longrightarrow> lmap (search_tree s') = lmap (search_tree s)"
  by (auto simp: lru_same_def lmap_def fun_eq_iff intro: skel_links)

lemma lru_same_chain: "lru_same s s' \<Longrightarrow> lru_chain s' xs = lru_chain s xs"
  by (simp add: lru_chain_def lru_same_lmap) (simp add: lru_same_def)

lemma lru_same_live: "lru_same s s' \<Longrightarrow> live_file env s' n = live_file env s n"
proof -
  assume "lru_same s s'"
  then have "map_option skel (search_tree s' n) = map_option skel (search_tree s n)"
    by (simp add: lru_same_def)
  then show ?thesis
    by (cases "search_tree s n"; cases "search_tree s' n") (auto simp: live_file_def skel_def)
qed

lemma lru_same_node:
  "lru_same s s' \<Longrightarrow> search_tree s' n = Some c' \<Longrightarrow>
   \<exists>c. search_tree s n = Some c \<and> skel c = skel c'"
proof -
  assume sm: "lru_same s s'" and c': "search_tree s' n = Some c'"
  from sm have "map_option skel (search_tree s' n) = map_option skel (search_tree s n)"
    by (simp add: lru_same_def)
  with c' show ?thesis by (cases "search_tree s n") auto
qed

lemma lru_same_sym: "lru_same s s' \<Longrightarrow> lru_same s' s"
  by (simp add: lru_same_def)

lemma lru_inv_same:
  assumes "lru_inv env s xs pend" and "lru_same s s'"
  shows "lru_inv env s' xs pend"
proof -
  note sm = assms(2)
  have ty: "\<forall>n c. search_tree s' n = Some c \<longrightarrow> sc_search_type c = Uhead n - 48"
  proof (intro allI impI)
    fix n c' assume "search_tree s' n = Some c'"
    from lru_same_node[OF sm this] obtain c where "search_tree s n = Some c" "skel c = skel c'" by blast
    with assms(1) show "sc_search_type c' = Uhead n - 48" by (auto simp: lru_inv_def skel_def)
  qed
  have pn: "\<forall>n. pend = Some n \<longrightarrow> n \<notin> set xs \<and> (\<exists>c. search_tree s' n = Some c \<and> sc_up c = None)"
  proof (intro allI impI)
    fix n assume p: "pend = Some n"
    with assms(1) obtain c where c: "n \<notin> set xs" "search_tree s n = Some c" "sc_up c = None"
      by (auto simp: lru_inv_def)
    from lru_same_node[OF lru_same_sym[OF sm] c(2)] obtain c' where
      "search_tree s' n = Some c'" "skel c' = skel c" by blast
    with c show "n \<notin> set xs \<and> (\<exists>c. search_tree s' n = Some c \<and> sc_up c = None)"
      by (auto simp: skel_def)
  qed
  from assms(1) ty pn show ?thesis
    unfolding lru_inv_def lru_same_chain[OF sm] lru_same_live[OF sm]
    using sm by (simp add: lru_same_def)
qed

lemma relinked_live: "relinked s s' \<Longrightarrow> live_file env s' n = live_file env s n"
proof -
  assume "relinked s s'"
  then have "map_option payload (search_tree s' n) = map_option payload (search_tree s n)"
    by (simp add: relinked_def)
  then show ?thesis
    by (cases "search_tree s n"; cases "search_tree s' n") (auto simp: live_file_def payload_def)
qed

lemma relinked_types:
  assumes "relinked s s'" and "\<forall>n c. search_tree s n = Some c \<longrightarrow> sc_search_type c = Uhead n - 48"
  shows "\<forall>n c. search_tree s' n = Some c \<longrightarrow> sc_search_type c = Uhead n - 48"
proof (intro allI impI)
  fix n c' assume c': "search_tree s' n = Some c'"
  from assms(1) have "map_option payload (search_tree s' n) = map_option payload (search_tree s n)"
    by (simp add: relinked_def)
  with c' obtain c where "search_tree s n = Some c" "payload c = payload c'"
    by (cases "search_tree s n") auto
  with assms(2) show "sc_search_type c' = Uhead n - 48" by (auto simp: payload_def)
qed

lemma hdopt_distinct_split:
  assumes "h \<in> set xs" and "hdopt xs \<noteq> Some h"
  shows "\<exists>as bs. xs = as @ h # bs \<and> as \<noteq> []"
proof -
  from split_list[OF assms(1)] obtain as bs where x: "xs = as @ h # bs" by blast
  with assms(2) have "as \<noteq> []" by (cases as) auto
  with x show ?thesis by blast
qed

lemma find_inv:
  assumes inv: "lru_inv env s xs pend" and pd: "pend = None \<or> pend = Some h"
    and c: "search_tree s h = Some c" and live: "sc_handle c \<noteq> None"
    and sf: "search_find env h f k partial affix affixlen starflags es opts s = Inr (y, kb, es', s')"
  shows "lru_inv env s' (if live_file env s h then h # remove1 h xs else xs) None"
proof -
  from search_find_same[OF sf] obtain s1 where lp: "lru_promote env h s = Inr s1" and sm: "lru_same s1 s'"
    by blast
  from inv have ch: "lru_chain s xs"
    and ty: "\<forall>n c. search_tree s n = Some c \<longrightarrow> sc_search_type c = Uhead n - 48"
    and lv: "\<forall>n. live_file env s n \<longleftrightarrow> n \<in> set xs \<or> pend = Some n"
    and pn: "\<forall>n. pend = Some n \<longrightarrow> n \<notin> set xs \<and> (\<exists>c. search_tree s n = Some c \<and> sc_up c = None)"
    and cnt: "open_filecount s = int (length xs) + (if pend = None then 0 else 1)"
    and mx: "open_filecount s \<le> lookup_open_max env"
    by (simp_all add: lru_inv_def)
  from ch have dist: "distinct xs" and top: "open_top s = hdopt xs" by (simp_all add: lru_chain_def)
  from ty c have tyh: "sc_search_type c = Uhead h - 48" by simp
  have lvh: "live_file env s h \<longleftrightarrow> file_backed env (Uhead h - 48)"
    using c live tyh by (simp add: live_file_def)
  have "lru_inv env s1 (if live_file env s h then h # remove1 h xs else xs) None"
  proof (cases "open_top s = Some h")
    case True
    with lp have s1: "s1 = s" by (simp add: lru_promote_def)
    from True top obtain xs' where xs: "xs = h # xs'" by (cases xs) auto
    with pn pd have p: "pend = None" by auto
    from lv xs have "live_file env s h" by simp
    with inv p xs dist show ?thesis by (simp add: s1)
  next
    case nt: False
    from lp nt obtain lk where le: "lookup_entry env (Uhead h - 48) = Inr lk"
      by (auto simp: lru_promote_def fbind_def split: sum.splits)
    show ?thesis
    proof (cases "li_type lk = lookup_absfile")
      case False
      with lp nt le have s1: "s1 = s" by (simp add: lru_promote_def fbind_def)
      from False le lvh have nl: "\<not> live_file env s h" by (simp add: file_backed_def)
      with lv pd have "pend = None" by auto
      with inv nl show ?thesis by (simp add: s1)
    next
      case True
      with le lvh have lh: "live_file env s h" by (simp add: file_backed_def)
      show ?thesis
      proof (cases "pend = Some h")
        case ph: True
        with pn obtain c' where nin: "h \<notin> set xs" and "search_tree s h = Some c'" "sc_up c' = None"
          by auto
        with c have up: "sc_up c = None" by simp
        from lru_promote_pending[OF ch nin c up le True] lp
        have c1: "lru_chain s1 (h # xs)" and r1: "relinked s s1" by auto
        have "lru_inv env s1 (h # xs) None"
          unfolding lru_inv_def
          using c1 relinked_types[OF r1 ty] lv ph cnt mx r1
          by (auto simp: relinked_live[OF r1] relinked_def)
        with lh nin show ?thesis by (simp add: remove1_idem)
      next
        case False
        with pd have p: "pend = None" by simp
        with lv lh have hin: "h \<in> set xs" by simp
        from nt top have "hdopt xs \<noteq> Some h" by simp
        from hdopt_distinct_split[OF hin this] obtain as bs where
          xs: "xs = as @ h # bs" and ne: "as \<noteq> []" by blast
        from lru_promote_middle[OF ch[unfolded xs] ne le True] lp
        have c1: "lru_chain s1 (h # as @ bs)" and r1: "relinked s s1" by auto
        from dist xs have rm: "remove1 h xs = as @ bs"
          by (simp add: remove1_append)
        have "lru_inv env s1 (h # as @ bs) None"
          unfolding lru_inv_def
          using c1 relinked_types[OF r1 ty] lv p cnt mx r1 xs
          by (auto simp: relinked_live[OF r1] relinked_def)
        with lh rm show ?thesis by simp
      qed
    qed
  qed
  then show ?thesis by (rule lru_inv_same[OF _ sm])
qed

lemma search_key_type: "0 \<le> st \<Longrightarrow> st < 208 \<Longrightarrow> Uhead (search_key st fn) - 48 = st"
proof -
  assume a: "0 \<le> st" "st < 208"
  define c where "c = (char_of (st + 48) :: char)"
  have "(of_char c :: int) = (st + 48) mod 256" unfolding c_def by (rule of_char_of)
  with a have oc: "(of_char c :: int) = st + 48" by simp
  have "int (of_char c :: nat) = (of_char c :: int)" by (simp add: of_nat_of_char)
  with oc have n: "int (of_char c :: nat) = st + 48" by simp
  with a have "c \<noteq> NUL" by (auto simp: NUL_def)
  then show ?thesis using n
    by (simp add: search_key_def c_def[symmetric] cstr_def)
qed

lemma live_file_open: "live_file env s n \<Longrightarrow> node_open s n"
  by (auto simp: live_file_def node_open_def split: option.splits)

lemma admission_inv:
  assumes inv: "lru_inv env s xs None" and mx1: "1 \<le> lookup_open_max env"
    and adm: "lru_admit env lk s = Inr s1" and nl: "\<not> node_open s key"
  shows "\<exists>xs1. lru_inv env s1 xs1 None \<and>
           xs1 = (if li_type lk = lookup_absfile \<and> lookup_open_max env \<le> open_filecount s
                  then butlast xs else xs) \<and>
           (li_type lk = lookup_absfile \<longrightarrow> open_filecount s1 < lookup_open_max env) \<and>
           \<not> node_open s1 key"
proof (cases "li_type lk = lookup_absfile \<and> open_filecount s \<ge> lookup_open_max env")
  case False
  with adm have "s1 = s" by (simp add: lru_admit_def)
  with inv nl False show ?thesis by (auto simp: lru_inv_def)
next
  case True
  from inv have ch: "lru_chain s xs"
    and ty: "\<forall>n c. search_tree s n = Some c \<longrightarrow> sc_search_type c = Uhead n - 48"
    and lv: "\<forall>n. live_file env s n \<longleftrightarrow> n \<in> set xs"
    and cnt: "open_filecount s = int (length xs)"
    and mx: "open_filecount s \<le> lookup_open_max env"
    by (simp_all add: lru_inv_def)
  from True mx1 cnt have ne: "xs \<noteq> []" by auto
  with ch have bot: "open_bot s = Some (last xs)" by (simp add: lru_chain_def lastopt_def)
  from ch have dist: "distinct xs" by (simp add: lru_chain_def)
  define b where "b = last xs"
  from adm True bot have cl: "close_lru env (last xs) s = Inr s1" by (simp add: lru_admit_def)
  from close_lru_chain[OF ch ne cl] obtain c where
    c1: "lru_chain s1 (butlast xs)" and cnt1: "open_filecount s1 = open_filecount s - 1"
    and cb: "search_tree s b = Some c"
    and cb1: "search_tree s1 b = Some (c\<lparr>sc_handle := None, sc_down := None\<rparr>)"
    and oth: "\<forall>n. n \<noteq> b \<longrightarrow> map_option payload (search_tree s1 n) = map_option payload (search_tree s n)"
    by (auto simp: b_def)
  from dist ne have bnb: "b \<notin> set (butlast xs)"
    unfolding b_def by (metis append_butlast_last_id distinct_append disjoint_iff list.set_intros(1))
  have inb: "\<And>n. n \<noteq> b \<Longrightarrow> n \<in> set (butlast xs) \<longleftrightarrow> n \<in> set xs"
    using ne unfolding b_def by (metis append_butlast_last_id in_set_butlastD set_ConsD
        rotate1.simps(2) set_rotate1)
  have ty1: "\<forall>n c'. search_tree s1 n = Some c' \<longrightarrow> sc_search_type c' = Uhead n - 48"
  proof (intro allI impI)
    fix n c' assume c': "search_tree s1 n = Some c'"
    show "sc_search_type c' = Uhead n - 48"
    proof (cases "n = b")
      case True with c' cb1 cb ty show ?thesis by auto
    next
      case False
      with oth have "map_option payload (search_tree s1 n) = map_option payload (search_tree s n)" by simp
      with c' obtain c0 where "search_tree s n = Some c0" "payload c0 = payload c'"
        by (cases "search_tree s n") auto
      with ty show ?thesis by (auto simp: payload_def)
    qed
  qed
  have lv1: "\<forall>n. live_file env s1 n \<longleftrightarrow> n \<in> set (butlast xs)"
  proof
    fix n
    show "live_file env s1 n \<longleftrightarrow> n \<in> set (butlast xs)"
    proof (cases "n = b")
      case True with cb1 bnb show ?thesis by (simp add: live_file_def)
    next
      case False
      with oth have "map_option payload (search_tree s1 n) = map_option payload (search_tree s n)" by simp
      then have "live_file env s1 n = live_file env s n"
        by (cases "search_tree s n"; cases "search_tree s1 n") (auto simp: live_file_def payload_def)
      with lv inb[OF False] show ?thesis by simp
    qed
  qed
  have no1: "\<not> node_open s1 key"
  proof (cases "key = b")
    case True with cb1 show ?thesis by (simp add: node_open_def)
  next
    case False
    with oth have "map_option payload (search_tree s1 key) = map_option payload (search_tree s key)" by simp
    then have "node_open s1 key = node_open s key"
      by (cases "search_tree s key"; cases "search_tree s1 key") (auto simp: node_open_def payload_def)
    with nl show ?thesis by simp
  qed
  have "lru_inv env s1 (butlast xs) None"
    unfolding lru_inv_def using c1 ty1 lv1 cnt1 cnt mx ne by (simp add: Suc_leI)
  moreover have "open_filecount s1 < lookup_open_max env" using cnt1 mx by simp
  ultimately show ?thesis using no1 True by auto
qed

lemma insert_inv:
  assumes inv: "lru_inv env s xs None" and nl: "\<not> node_open s key"
    and le: "lookup_entry env st = Inr lk" and kt: "Uhead key - 48 = st"
    and room: "li_type lk = lookup_absfile \<longrightarrow> open_filecount s < lookup_open_max env"
  shows "lru_inv env (enter_node lk key st hdl s) xs (if li_type lk = lookup_absfile then Some key else None)
         \<and> node_open (enter_node lk key st hdl s) key
         \<and> lmap (search_tree (enter_node lk key st hdl s)) key = Some (None, None)"
proof -
  define s' where "s' = enter_node lk key st hdl s"
  from inv have ch: "lru_chain s xs"
    and ty: "\<forall>n c. search_tree s n = Some c \<longrightarrow> sc_search_type c = Uhead n - 48"
    and lv: "\<forall>n. live_file env s n \<longleftrightarrow> n \<in> set xs"
    and cnt: "open_filecount s = int (length xs)"
    and mx: "open_filecount s \<le> lookup_open_max env"
    by (simp_all add: lru_inv_def)
  from nl lv live_file_open have kx: "key \<notin> set xs" by blast
  obtain c' where k': "search_tree s' key = Some c'" and h': "sc_handle c' = Some hdl"
    and t': "sc_search_type c' = st" and u': "sc_up c' = None" and d': "sc_down c' = None"
    by (simp add: s'_def enter_node_def Let_def)
  have oth: "\<And>n. n \<noteq> key \<Longrightarrow> search_tree s' n = search_tree s n"
    by (simp add: s'_def enter_node_def Let_def)
  have tb: "open_top s' = open_top s" "open_bot s' = open_bot s"
    by (simp_all add: s'_def enter_node_def Let_def)
  have cn: "open_filecount s' = open_filecount s + (if li_type lk = lookup_absfile then 1 else 0)"
    by (simp add: s'_def enter_node_def Let_def)
  have "dchl (lmap (search_tree s')) None xs None = dchl (lmap (search_tree s)) None xs None"
  proof (rule dchl_frame)
    fix x assume "x \<in> set xs"
    with kx have "x \<noteq> key" by auto
    from oth[OF this] show "lmap (search_tree s') x = lmap (search_tree s) x" by (simp add: lmap_def)
  qed
  with ch tb have ch': "lru_chain s' xs" by (simp add: lru_chain_def)
  have ty': "\<forall>n c. search_tree s' n = Some c \<longrightarrow> sc_search_type c = Uhead n - 48"
    using ty k' t' kt oth by (metis option.inject)
  have fb: "file_backed env st \<longleftrightarrow> li_type lk = lookup_absfile"
    using le by (simp add: file_backed_def)
  have lvk: "live_file env s' key \<longleftrightarrow> li_type lk = lookup_absfile"
    using k' h' t' fb by (simp add: live_file_def)
  have lvo: "\<And>n. n \<noteq> key \<Longrightarrow> live_file env s' n = live_file env s n"
    using oth by (simp add: live_file_def)
  have lv': "\<forall>n. live_file env s' n \<longleftrightarrow>
                 n \<in> set xs \<or> (if li_type lk = lookup_absfile then Some key else None) = Some n"
  proof
    fix n
    show "live_file env s' n \<longleftrightarrow>
                 n \<in> set xs \<or> (if li_type lk = lookup_absfile then Some key else None) = Some n"
    proof (cases "n = key")
      case True with lvk kx show ?thesis by auto
    next
      case False with lvo[OF False] lv show ?thesis by auto
    qed
  qed
  have "lru_inv env s' xs (if li_type lk = lookup_absfile then Some key else None)"
    unfolding lru_inv_def using ch' ty' lv' kx k' u' cn cnt mx room by auto
  moreover have "node_open s' key" using k' h' by (simp add: node_open_def)
  moreover have "lmap (search_tree s') key = Some (None, None)"
    using k' u' d' by (simp add: lmap_def links_def)
  ultimately show ?thesis by (simp add: s'_def)
qed

lemma open_inv:
  assumes inv: "lru_inv env s xs None" and mx1: "1 \<le> lookup_open_max env"
    and sz: "length (lookup_list env) \<le> 208"
    and so: "search_open env fn st mm ow og s = Inr (r, s')"
  shows "\<exists>xs' pend. lru_inv env s' xs' pend \<and>
           xs' = (if file_backed env st \<and> \<not> (case fn of Some f \<Rightarrow> is_tainted env f | None \<Rightarrow> False) \<and>
                     \<not> node_open s (search_key st fn) \<and> lookup_open_max env \<le> open_filecount s
                  then butlast xs else xs) \<and>
           (case r of None \<Rightarrow> pend = None
            | Some h \<Rightarrow> h = search_key st fn \<and> node_open s' h \<and>
                \<not> (case fn of Some f \<Rightarrow> is_tainted env f | None \<Rightarrow> False) \<and>
                (\<not> node_open s h \<longrightarrow> lmap (search_tree s') h = Some (None, None)) \<and>
                pend = (if file_backed env st \<and> \<not> node_open s h then Some h else None))"
proof -
  from so obtain lk where le: "lookup_entry env st = Inr lk"
    by (auto simp: search_open_def fbind_def split: sum.splits)
  from le sz have rng: "0 \<le> st" "st < 208"
    by (auto simp: lookup_entry_def split: if_splits)
  have fb: "file_backed env st \<longleftrightarrow> li_type lk = lookup_absfile"
    using le by (simp add: file_backed_def)
  define key where "key = search_key st fn"
  have kt: "Uhead key - 48 = st" unfolding key_def by (rule search_key_type[OF rng])
  note so' = so[unfolded search_open_def le fbind_def sum.case Let_def key_def[symmetric]]
  show ?thesis
  proof (cases "case fn of Some f \<Rightarrow> is_tainted env f | None \<Rightarrow> False")
    case True
    with so' have "r = None" and "lru_same s s'" by (auto simp: lru_same_def)
    with lru_inv_same[OF inv] True show ?thesis by auto
  next
    case nt: False
    show ?thesis
    proof (cases "node_open s key")
      case True
      with so' nt have "r = Some key" "s' = s" by (auto simp: node_open_def)
      with inv True nt show ?thesis by (auto simp: key_def)
    next
      case no: False
      from so' nt no obtain s1 where adm: "lru_admit env lk s = Inr s1"
        by (auto simp: node_open_def split: sum.splits)
      from admission_inv[OF inv mx1 adm no] obtain xs1 where
        i1: "lru_inv env s1 xs1 None"
        and x1: "xs1 = (if file_backed env st \<and> \<not> (case fn of Some f \<Rightarrow> is_tainted env f | None \<Rightarrow> False) \<and>
                     \<not> node_open s key \<and> lookup_open_max env \<le> open_filecount s
                  then butlast xs else xs)"
        and room: "li_type lk = lookup_absfile \<longrightarrow> open_filecount s1 < lookup_open_max env"
        and no1: "\<not> node_open s1 key" using fb nt no by auto
      from so' nt no adm obtain openhook where oh: "li_open lk = Some openhook"
        by (auto simp: node_open_def split: option.splits)
      obtain h err w where ho: "openhook fn (world s1) = ((h, err), w)"
        by (cases "openhook fn (world s1)") auto
      define s2 where "s2 = s1\<lparr>world := w,
                                 hook_calls := hook_calls s1 @ [CallOpen st fn],
                                 search_error_message :=
                                   (case err of None \<Rightarrow> search_error_message s1 | Some m \<Rightarrow> m)\<rparr>"
      have sm2: "lru_same s1 s2" by (simp add: s2_def lru_same_def)
      note i2 = lru_inv_same[OF i1 sm2]
      have no2: "\<not> node_open s2 key" using no1 by (simp add: s2_def node_open_def)
      have r2: "li_type lk = lookup_absfile \<longrightarrow> open_filecount s2 < lookup_open_max env"
        using room by (simp add: s2_def)
      note so2 = so'[unfolded adm sum.case oh option.case ho prod.case s2_def[symmetric]]
      show ?thesis
      proof (cases h)
        case None
        with so2 nt no have "r = None" "s' = s2" by (auto simp: node_open_def)
        with i2 x1 show ?thesis by (auto simp: key_def)
      next
        case (Some hdl)
        obtain ok s3 where cc: "call_check lk st hdl fn mm ow og s2 = (ok, s3)"
          by (cases "call_check lk st hdl fn mm ow og s2") auto
        have sm3: "lru_same s2 s3"
          using cc by (auto simp: call_check_def lru_same_def Let_def split: option.splits prod.splits)
        note i3 = lru_inv_same[OF i2 sm3]
        have no3: "\<not> node_open s3 key"
          using no2 lru_same_node[OF sm3, of key] lru_same_node[OF lru_same_sym[OF sm3], of key]
          by (auto simp: node_open_def skel_def split: option.splits)
        have r3: "li_type lk = lookup_absfile \<longrightarrow> open_filecount s3 < lookup_open_max env"
          using r2 sm3 by (simp add: lru_same_def)
        show ?thesis
        proof (cases ok)
          case False
          with so2 nt no Some cc obtain closehook where
            "r = None" "s' = s3\<lparr>world := closehook (Some hdl) (world s3),
                                hook_calls := hook_calls s3 @ [CallClose st (Some hdl)]\<rparr>"
            by (auto simp: node_open_def split: option.splits)
          then have "r = None" "lru_same s3 s'" by (simp_all add: lru_same_def)
          with lru_inv_same[OF i3] x1 show ?thesis by (auto simp: key_def)
        next
          case True
          with so2 nt no Some cc have "r = Some key" "s' = enter_node lk key st hdl s3"
            by (auto simp: node_open_def)
          with insert_inv[OF i3 no3 le kt r3, of hdl] x1 no nt fb show ?thesis
            by (cases "li_type lk = lookup_absfile") (auto simp: key_def)
        qed
      qed
    qed
  qed
qed

lemma init_inv: "no_lookups_open s \<Longrightarrow> 0 \<le> lookup_open_max env \<Longrightarrow> lru_inv env s [] None"
  by (simp add: no_lookups_open_def lru_inv_def lru_chain_def live_file_def)

lemma tidy_drivers_same: "lru_same s (tidy_drivers lks i s)"
proof (induction lks arbitrary: i s)
  case Nil show ?case by simp
next
  case (Cons lk lks)
  have "lru_same s (case li_tidy lk of None \<Rightarrow> s
         | Some tidyhook \<Rightarrow> s\<lparr>world := tidyhook (world s), hook_calls := hook_calls s @ [CallTidy i]\<rparr>)"
    by (simp add: lru_same_def split: option.splits)
  from lru_same_trans[OF this Cons.IH] show ?case by simp
qed

lemma tidyup_inv:
  assumes "search_tidyup env s = Inr s'" and "0 \<le> lookup_open_max env"
  shows "lru_inv env s' [] None"
proof -
  from assms(1) obtain s1 where
    s': "s' = tidy_drivers (lookup_list env) 0
              (s1\<lparr>search_tree := Map.empty, tree_nodes := [],
                  open_top := None, open_bot := None, open_filecount := 0\<rparr>)"
    by (auto simp: search_tidyup_def fbind_def split: sum.splits)
  have "no_lookups_open (s1\<lparr>search_tree := Map.empty, tree_nodes := [],
                  open_top := None, open_bot := None, open_filecount := 0\<rparr>)"
    by (simp add: no_lookups_open_def)
  from lru_inv_same[OF init_inv[OF this assms(2)] tidy_drivers_same] show ?thesis
    unfolding s' .
qed

lemma node_openD: "node_open s h \<Longrightarrow> \<exists>c. search_tree s h = Some c \<and> sc_handle c \<noteq> None"
  by (auto simp: node_open_def split: option.splits)

lemma live_file_key:
  assumes inv: "lru_inv env s xs pend" and no: "node_open s h" and h: "Uhead h - 48 = st"
  shows "live_file env s h \<longleftrightarrow> file_backed env st"
proof -
  from node_openD[OF no] obtain c where c: "search_tree s h = Some c" "sc_handle c \<noteq> None" by blast
  from inv c(1) have "sc_search_type c = Uhead h - 48" by (simp add: lru_inv_def)
  with c h show ?thesis by (simp add: live_file_def)
qed

lemma lookup_inv:
  assumes inv: "lru_inv env s xs None" and mx1: "1 \<le> lookup_open_max env"
    and sz: "length (lookup_list env) \<le> 208"
    and lc: "lookup_call env q s = Inr s'"
  shows "\<exists>xs'. lru_inv env s' xs' None"
proof -
  from lc obtain r s1 where so: "search_open env (lq_filename q) (lq_search_type q) (lq_modemask q)
       (lq_owners q) (lq_owngroups q) s = Inr (r, s1)"
    by (auto simp: lookup_call_def fbind_def split: sum.splits)
  from open_inv[OF inv mx1 sz so] obtain xs1 pend where
    i1: "lru_inv env s1 xs1 pend" and
    r0: "case r of None \<Rightarrow> pend = None
            | Some h \<Rightarrow> h = search_key (lq_search_type q) (lq_filename q) \<and> node_open s1 h \<and>
                \<not> (case lq_filename q of Some f \<Rightarrow> is_tainted env f | None \<Rightarrow> False) \<and>
                (\<not> node_open s h \<longrightarrow> lmap (search_tree s1) h = Some (None, None)) \<and>
                pend = (if file_backed env (lq_search_type q) \<and> \<not> node_open s h then Some h else None)"
    by blast
  have rr: "case r of None \<Rightarrow> pend = None
            | Some h \<Rightarrow> node_open s1 h \<and> (pend = None \<or> pend = Some h)"
    using r0 by (cases r) auto
  show ?thesis
  proof (cases r)
    case None
    with lc so rr i1 show ?thesis by (auto simp: lookup_call_def fbind_def)
  next
    case (Some h)
    with rr have no: "node_open s1 h" and pd: "pend = None \<or> pend = Some h" by auto
    from node_openD[OF no] obtain c where c: "search_tree s1 h = Some c" "sc_handle c \<noteq> None" by blast
    from lc so Some obtain y kb es where sf: "search_find env h (lq_filename q) (lq_keystring q)
        (lq_partial q) (lq_affix q) (lq_affixlen q) (lq_starflags q) (lq_expand_setup q) (lq_opts q) s1
        = Inr (y, kb, es, s')"
      by (auto simp: lookup_call_def fbind_def split: sum.splits)
    from find_inv[OF i1 pd c sf] show ?thesis by blast
  qed
qed

lemma run_inv:
  assumes mx1: "1 \<le> lookup_open_max env" and sz: "length (lookup_list env) \<le> 208"
  shows "lru_inv env s0 xs0 None \<Longrightarrow> run env calls s0 = Inr s \<Longrightarrow> \<exists>xs. lru_inv env s xs None"
proof (induction calls arbitrary: s0 xs0)
  case Nil then show ?case by auto
next
  case (Cons c cs)
  show ?case
  proof (cases c)
    case (Lookup q)
    with Cons.prems(2) obtain s1 where l: "lookup_call env q s0 = Inr s1" and r: "run env cs s1 = Inr s"
      by (auto simp: fbind_def split: sum.splits)
    from lookup_inv[OF Cons.prems(1) mx1 sz l] obtain xs1 where "lru_inv env s1 xs1 None" by blast
    from Cons.IH[OF this r] show ?thesis .
  next
    case Tidyup
    with Cons.prems(2) obtain s1 where l: "search_tidyup env s0 = Inr s1" and r: "run env cs s1 = Inr s"
      by (auto simp: fbind_def split: sum.splits)
    from mx1 have "0 \<le> lookup_open_max env" by simp
    from Cons.IH[OF tidyup_inv[OF l this] r] show ?thesis .
  qed
qed

lemma reach_inv:
  assumes "1 \<le> lookup_open_max env" and "length (lookup_list env) \<le> 208"
    and "no_lookups_open s0" and "run env calls s0 = Inr s"
  shows "\<exists>xs. lru_inv env s xs None"
proof -
  from assms(1) have "0 \<le> lookup_open_max env" by simp
  from run_inv[OF assms(1,2) init_inv[OF assms(3) this] assms(4)] show ?thesis .
qed

lemma search_open_trace:
  assumes le: "lookup_entry env st = Inr lk"
    and nt: "\<not> (case fn of Some f \<Rightarrow> is_tainted env f | None \<Rightarrow> False)"
    and no: "\<not> node_open s (search_key st fn)"
    and so: "search_open env fn st mm ow og s = Inr (r, s')"
  shows "\<exists>sa rest. lru_admit env lk s = Inr sa \<and> hook_calls s' = hook_calls sa @ CallOpen st fn # rest"
proof -
  note so' = so[unfolded search_open_def le fbind_def sum.case Let_def]
  from so' nt no obtain sa where adm: "lru_admit env lk s = Inr sa"
    by (auto simp: node_open_def split: sum.splits)
  from so' nt no adm obtain openhook where oh: "li_open lk = Some openhook"
    by (auto simp: node_open_def split: option.splits)
  obtain h err w where ho: "openhook fn (world sa) = ((h, err), w)"
    by (cases "openhook fn (world sa)") auto
  define s2 where "s2 = sa\<lparr>world := w,
                             hook_calls := hook_calls sa @ [CallOpen st fn],
                             search_error_message :=
                               (case err of None \<Rightarrow> search_error_message sa | Some m \<Rightarrow> m)\<rparr>"
  have h2: "hook_calls s2 = hook_calls sa @ [CallOpen st fn]" by (simp add: s2_def)
  note so2 = so'[unfolded adm sum.case oh option.case ho prod.case s2_def[symmetric]]
  have "\<exists>rest. hook_calls s' = hook_calls s2 @ rest"
  proof (cases h)
    case None
    with so2 nt no have "s' = s2" by (auto simp: node_open_def)
    then show ?thesis by simp
  next
    case (Some hdl)
    obtain ok s3 where cc: "call_check lk st hdl fn mm ow og s2 = (ok, s3)"
      by (cases "call_check lk st hdl fn mm ow og s2") auto
    have h3: "\<exists>rest. hook_calls s3 = hook_calls s2 @ rest"
      using cc by (auto simp: call_check_def Let_def split: option.splits prod.splits)
    show ?thesis
    proof (cases ok)
      case False
      with so2 nt no Some cc obtain closehook where
        "s' = s3\<lparr>world := closehook (Some hdl) (world s3),
                 hook_calls := hook_calls s3 @ [CallClose st (Some hdl)]\<rparr>"
        by (auto simp: node_open_def split: option.splits)
      with h3 show ?thesis by auto
    next
      case True
      with so2 nt no Some cc have "s' = enter_node lk (search_key st fn) st hdl s3"
        by (auto simp: node_open_def)
      then have "hook_calls s' = hook_calls s3" by (simp add: enter_node_def Let_def)
      with h3 show ?thesis by simp
    qed
  qed
  with h2 adm show ?thesis by auto
qed

lemma open_evicts:
  assumes inv: "lru_inv env s xs None" and mx1: "1 \<le> lookup_open_max env"
    and fb: "file_backed env st"
    and nt: "\<not> (case fn of Some f \<Rightarrow> is_tainted env f | None \<Rightarrow> False)"
    and no: "\<not> node_open s (search_key st fn)"
    and full: "lookup_open_max env \<le> open_filecount s"
    and so: "search_open env fn st mm ow og s = Inr (r, s')"
  shows "closes_bottom_first s st fn s'"
proof -
  from fb obtain lk where le: "lookup_entry env st = Inr lk" and ab: "li_type lk = lookup_absfile"
    by (auto simp: file_backed_def split: sum.splits)
  from search_open_trace[OF le nt no so] obtain sa rest where
    adm: "lru_admit env lk s = Inr sa" and hc: "hook_calls s' = hook_calls sa @ CallOpen st fn # rest"
    by blast
  from inv have ch: "lru_chain s xs" and cnt: "open_filecount s = int (length xs)"
    and lv: "\<forall>n. live_file env s n \<longleftrightarrow> n \<in> set xs"
    by (simp_all add: lru_inv_def)
  from full mx1 cnt have ne: "xs \<noteq> []" by auto
  with ch have bot: "open_bot s = Some (last xs)" by (simp add: lru_chain_def lastopt_def)
  from adm ab full bot have cl: "close_lru env (last xs) s = Inr sa" by (simp add: lru_admit_def)
  from close_lru_chain[OF ch ne cl] obtain c where
    cb: "search_tree s (last xs) = Some c"
    and hs: "hook_calls sa = hook_calls s @ [CallClose (sc_search_type c) (sc_handle c)]"
    by auto
  from ne lv have "live_file env s (last xs)" by simp
  with cb have "sc_handle c \<noteq> None" by (simp add: live_file_def)
  with bot cb hs hc show ?thesis by (simp add: closes_bottom_first_def)
qed

lemma Inr_pair: "\<not> isl r \<Longrightarrow> r = Inr (fst (projr r), snd (projr r))"
  by (cases r) auto

lemma Inr_state: "\<not> isl r \<Longrightarrow> r = Inr (projr r)"
  by (cases r) auto

lemma ex_two_run:
  "run ex_env [Lookup (ex_req ''/a'' ''foo''), Lookup (ex_req ''/b'' ''foo'')] ex_init = Inr ex_two"
proof -
  have "\<not> isl (run ex_env [Lookup (ex_req ''/a'' ''foo''), Lookup (ex_req ''/b'' ''foo'')] ex_init)"
    by code_simp
  from Inr_state[OF this] show ?thesis unfolding ex_two_def .
qed

lemma ex_no_lookups_open: "no_lookups_open ex_init"
  by (simp add: no_lookups_open_def ex_init_def)

lemma ex_bounds: "1 \<le> lookup_open_max ex_env" "length (lookup_list ex_env) \<le> 208"
  by code_simp+

lemma ex_open_c:
  "search_open ex_env (Some ''/c'') 1 0 None None ex_two = Inr (Some ''1/c'', ex_opened ''/c'' ex_two)"
proof -
  define r where "r = search_open ex_env (Some ''/c'') 1 0 None None ex_two"
  have "\<not> isl r" and "fst (projr r) = Some ''1/c''" unfolding r_def by code_simp+
  with Inr_pair[of r] show ?thesis unfolding r_def ex_opened_def by simp
qed

lemma ex_find_c:
  "search_find ex_env ''1/c'' (Some ''/c'') ''foo'' (- 1) [] 0 0 None None (ex_opened ''/c'' ex_two) =
     Inr (Some ''bar'', ''foo'' @ [NUL], None, ex_found ''1/c'' ''/c'' ''foo'' (ex_opened ''/c'' ex_two))"
proof -
  define r where "r = search_find ex_env ''1/c'' (Some ''/c'') ''foo'' (- 1) [] 0 0 None None
                        (ex_opened ''/c'' ex_two)"
  have "\<not> isl r" and "fst (projr r) = Some ''bar''" and "fst (snd (projr r)) = ''foo'' @ [NUL]"
    and "fst (snd (snd (projr r))) = None"
    unfolding r_def by code_simp+
  then have "r = Inr (Some ''bar'', ''foo'' @ [NUL], None, snd (snd (snd (projr r))))"
    by (cases r) auto
  then show ?thesis unfolding r_def ex_found_def .
qed


subsection \<open>The limit on open files\<close>

text \<open>
  Claim C2, amended. Start with no lookup open, a limit of at least one open file and at
  most 208 drivers, and let the lookups be made as the callers make them, each
  \<open>search_open\<close> followed by the \<open>search_find\<close> on the handle it returned, with
  \<open>search_tidyup\<close> calls in between. Then \<open>open_filecount\<close> is at most \<open>lookup_open_max\<close>
  after every call, and also after the \<open>search_open\<close> of the next lookup; and when that
  \<open>search_open\<close> has a file to open for a driver that uses real files while the count is
  at the limit, it first closes the file at \<open>open_bot\<close>, the least recently used one.
\<close>

theorem open_filecount_bounded:
  assumes "1 \<le> lookup_open_max env" and "length (lookup_list env) \<le> 208"
    and "no_lookups_open s0" and "run env calls s0 = Inr s"
  shows "open_filecount s \<le> lookup_open_max env \<and>
         (case search_open env fn st mm ow og s of
            Inl e \<Rightarrow> True
          | Inr (r, s1) \<Rightarrow>
              open_filecount s1 \<le> lookup_open_max env \<and>
              (file_backed env st \<and> \<not> (case fn of Some f \<Rightarrow> is_tainted env f | None \<Rightarrow> False) \<and>
               \<not> node_open s (search_key st fn) \<and> lookup_open_max env \<le> open_filecount s
               \<longrightarrow> closes_bottom_first s st fn s1))"
proof -
  from reach_inv[OF assms] obtain xs where inv: "lru_inv env s xs None" by blast
  then have a: "open_filecount s \<le> lookup_open_max env" by (simp add: lru_inv_def)
  have b: "open_filecount s1 \<le> lookup_open_max env \<and>
              (file_backed env st \<and> \<not> (case fn of Some f \<Rightarrow> is_tainted env f | None \<Rightarrow> False) \<and>
               \<not> node_open s (search_key st fn) \<and> lookup_open_max env \<le> open_filecount s
               \<longrightarrow> closes_bottom_first s st fn s1)"
    if so: "search_open env fn st mm ow og s = Inr (r, s1)" for r s1
  proof -
    from open_inv[OF inv assms(1,2) so] obtain xs1 pend where "lru_inv env s1 xs1 pend" by blast
    then have "open_filecount s1 \<le> lookup_open_max env" by (simp add: lru_inv_def)
    with open_evicts[OF inv assms(1) _ _ _ _ so] show ?thesis by blast
  qed
  show ?thesis using a b by (auto split: sum.splits)
qed

text \<open>
  The claim as stated fails for a sequence of \<open>search_open\<close> calls with no \<open>search_find\<close>
  between them: the files opened are counted but not chained, so that the third
  \<open>search_open\<close> finds no file to close, logs it, and takes the count to three with a
  limit of two.
\<close>

theorem open_filecount_bounded_counterexample:
  "lookup_open_max ex_env = 2 \<and>
   open_filecount (ex_opened ''/c'' (ex_opened ''/b'' (ex_opened ''/a'' ex_init))) = 3 \<and>
   hook_calls (ex_opened ''/c'' (ex_opened ''/b'' (ex_opened ''/a'' ex_init))) =
     [CallOpen 1 (Some ''/a''), CallOpen 1 (Some ''/b''), CallOpen 1 (Some ''/c'')] \<and>
   log (ex_opened ''/c'' (ex_opened ''/b'' (ex_opened ''/a'' ex_init))) =
     [''too many lookups open, but can't find one to close'']"
  by code_simp

text \<open>
  After the lookups in \<open>/a\<close> and \<open>/b\<close> the count is at the limit; the \<open>search_open\<close> of
  \<open>/c\<close> closes \<open>/a\<close> first and the count stays at two.
\<close>

theorem open_filecount_bounded_witness:
  "open_filecount ex_two \<le> lookup_open_max ex_env \<and>
   open_filecount (ex_opened ''/c'' ex_two) \<le> lookup_open_max ex_env \<and>
   closes_bottom_first ex_two 1 (Some ''/c'') (ex_opened ''/c'' ex_two)"
proof -
  have p1: "file_backed ex_env 1" by code_simp
  have p2: "\<not> (case Some ''/c'' of Some f \<Rightarrow> is_tainted ex_env f | None \<Rightarrow> False)" by code_simp
  have p3: "\<not> node_open ex_two (search_key 1 (Some ''/c''))" by code_simp
  have p4: "lookup_open_max ex_env \<le> open_filecount ex_two" by code_simp
  from open_filecount_bounded[OF ex_bounds ex_no_lookups_open ex_two_run,
        where fn = "Some ''/c''" and st = 1 and mm = 0 and ow = None and og = None]
  show ?thesis unfolding ex_open_c using p1 p2 p3 p4 by simp
qed


subsection \<open>The length of the chain\<close>

text \<open>
  Claim C7, amended. Under the conditions of C2, after every lookup and every
  \<open>search_tidyup\<close> the slots from \<open>open_top\<close> to \<open>open_bot\<close> are a doubly linked chain of
  distinct slots, which are the live files, and their number is \<open>open_filecount\<close>. A
  \<open>search_open\<close> that returns a handle leaves the chain as it was, less its last slot
  when it had a file to open for a driver that uses real files with the count at the
  limit. When it has opened a file for such a driver, the count is one more than the
  length of the chain: the slot has null \<open>up\<close> and \<open>down\<close> pointers and is not on the
  chain. It is the \<open>search_find\<close> on the handle that puts the slot at \<open>open_top\<close>, after
  which the length of the chain is the count again.
\<close>

theorem lru_chain_cardinality:
  assumes "1 \<le> lookup_open_max env" and "length (lookup_list env) \<le> 208"
    and "no_lookups_open s0" and "run env calls s0 = Inr s"
  shows "\<exists>xs. lru_chain s xs \<and> int (length xs) = open_filecount s \<and>
           (\<forall>n. n \<in> set xs \<longleftrightarrow> live_file env s n) \<and>
           (case search_open env fn st mm ow og s of
              Inl e \<Rightarrow> True
            | Inr (None, s1) \<Rightarrow> lru_chain s1 xs \<or> lru_chain s1 (butlast xs)
            | Inr (Some h, s1) \<Rightarrow>
                (\<exists>xs1. lru_chain s1 xs1 \<and>
                   xs1 = (if file_backed env st \<and> \<not> node_open s h \<and>
                             lookup_open_max env \<le> open_filecount s
                          then butlast xs else xs) \<and>
                   open_filecount s1 =
                     int (length xs1) + (if file_backed env st \<and> \<not> node_open s h then 1 else 0) \<and>
                   (file_backed env st \<and> \<not> node_open s h \<longrightarrow>
                      h \<notin> set xs1 \<and> lmap (search_tree s1) h = Some (None, None)) \<and>
                   (case search_find env h f k partial affix affixlen starflags es opts s1 of
                      Inl e \<Rightarrow> True
                    | Inr (y, kb, es', s2) \<Rightarrow>
                        lru_chain s2 (if file_backed env st then h # remove1 h xs1 else xs1) \<and>
                        (file_backed env st \<longrightarrow> open_top s2 = Some h) \<and>
                        open_filecount s2 =
                          int (length (if file_backed env st then h # remove1 h xs1 else xs1)))))"
proof -
  from reach_inv[OF assms] obtain xs where inv: "lru_inv env s xs None" by blast
  then have a: "lru_chain s xs" "int (length xs) = open_filecount s"
    "\<forall>n. n \<in> set xs \<longleftrightarrow> live_file env s n" by (simp_all add: lru_inv_def)
  have b: "lru_chain s1 xs \<or> lru_chain s1 (butlast xs)"
    if so: "search_open env fn st mm ow og s = Inr (None, s1)" for s1
  proof -
    from open_inv[OF inv assms(1,2) so] obtain xs1 pend where
      "lru_inv env s1 xs1 pend"
      and "xs1 = (if file_backed env st \<and> \<not> (case fn of Some f \<Rightarrow> is_tainted env f | None \<Rightarrow> False) \<and>
                     \<not> node_open s (search_key st fn) \<and> lookup_open_max env \<le> open_filecount s
                  then butlast xs else xs)"
      by blast
    then show ?thesis by (auto simp: lru_inv_def split: if_splits)
  qed
  have c: "\<exists>xs1. lru_chain s1 xs1 \<and>
                   xs1 = (if file_backed env st \<and> \<not> node_open s h \<and>
                             lookup_open_max env \<le> open_filecount s
                          then butlast xs else xs) \<and>
                   open_filecount s1 =
                     int (length xs1) + (if file_backed env st \<and> \<not> node_open s h then 1 else 0) \<and>
                   (file_backed env st \<and> \<not> node_open s h \<longrightarrow>
                      h \<notin> set xs1 \<and> lmap (search_tree s1) h = Some (None, None)) \<and>
                   (case search_find env h f k partial affix affixlen starflags es opts s1 of
                      Inl e \<Rightarrow> True
                    | Inr (y, kb, es', s2) \<Rightarrow>
                        lru_chain s2 (if file_backed env st then h # remove1 h xs1 else xs1) \<and>
                        (file_backed env st \<longrightarrow> open_top s2 = Some h) \<and>
                        open_filecount s2 =
                          int (length (if file_backed env st then h # remove1 h xs1 else xs1)))"
    if so: "search_open env fn st mm ow og s = Inr (Some h, s1)" for h s1
  proof -
    from so obtain lk where le: "lookup_entry env st = Inr lk"
      by (auto simp: search_open_def fbind_def split: sum.splits)
    from le assms(2) have rng: "0 \<le> st" "st < 208"
      by (auto simp: lookup_entry_def split: if_splits)
    from open_inv[OF inv assms(1,2) so, unfolded option.case] obtain xs1 pend where
      i1: "lru_inv env s1 xs1 pend"
      and x0: "xs1 = (if file_backed env st \<and> \<not> (case fn of Some f \<Rightarrow> is_tainted env f | None \<Rightarrow> False) \<and>
                     \<not> node_open s (search_key st fn) \<and> lookup_open_max env \<le> open_filecount s
                  then butlast xs else xs)"
      and hk: "h = search_key st fn" and no: "node_open s1 h"
      and nt: "\<not> (case fn of Some f \<Rightarrow> is_tainted env f | None \<Rightarrow> False)"
      and lk: "\<not> node_open s h \<longrightarrow> lmap (search_tree s1) h = Some (None, None)"
      and pd: "pend = (if file_backed env st \<and> \<not> node_open s h then Some h else None)"
      by blast
    from x0 hk nt have x1: "xs1 = (if file_backed env st \<and> \<not> node_open s h \<and>
                             lookup_open_max env \<le> open_filecount s
                          then butlast xs else xs)" by simp
    from hk search_key_type[OF rng] have kt: "Uhead h - 48 = st" by simp
    from i1 have ch1: "lru_chain s1 xs1"
      and cnt1: "open_filecount s1 = int (length xs1) + (if pend = None then 0 else 1)"
      and pn: "\<forall>n. pend = Some n \<longrightarrow> n \<notin> set xs1"
      by (simp_all add: lru_inv_def)
    from cnt1 pd have c1: "open_filecount s1 =
        int (length xs1) + (if file_backed env st \<and> \<not> node_open s h then 1 else 0)" by simp
    from pn pd lk have c2: "file_backed env st \<and> \<not> node_open s h \<longrightarrow>
        h \<notin> set xs1 \<and> lmap (search_tree s1) h = Some (None, None)" by simp
    have c3: "lru_chain s2 (if file_backed env st then h # remove1 h xs1 else xs1) \<and>
              (file_backed env st \<longrightarrow> open_top s2 = Some h) \<and>
              open_filecount s2 = int (length (if file_backed env st then h # remove1 h xs1 else xs1))"
      if sf: "search_find env h f k partial affix affixlen starflags es opts s1 = Inr (y, kb, es', s2)"
      for y kb es' s2
    proof -
      from pd have pd': "pend = None \<or> pend = Some h" by simp
      from node_openD[OF no] obtain c where c: "search_tree s1 h = Some c" "sc_handle c \<noteq> None" by blast
      from find_inv[OF i1 pd' c sf] live_file_key[OF i1 no kt]
      have "lru_inv env s2 (if file_backed env st then h # remove1 h xs1 else xs1) None" by simp
      then show ?thesis by (simp add: lru_inv_def lru_chain_def)
    qed
    from ch1 x1 c1 c2 c3 show ?thesis by (auto split: sum.splits)
  qed
  have d: "case search_open env fn st mm ow og s of
              Inl e \<Rightarrow> True
            | Inr (None, s1) \<Rightarrow> lru_chain s1 xs \<or> lru_chain s1 (butlast xs)
            | Inr (Some h, s1) \<Rightarrow>
                (\<exists>xs1. lru_chain s1 xs1 \<and>
                   xs1 = (if file_backed env st \<and> \<not> node_open s h \<and>
                             lookup_open_max env \<le> open_filecount s
                          then butlast xs else xs) \<and>
                   open_filecount s1 =
                     int (length xs1) + (if file_backed env st \<and> \<not> node_open s h then 1 else 0) \<and>
                   (file_backed env st \<and> \<not> node_open s h \<longrightarrow>
                      h \<notin> set xs1 \<and> lmap (search_tree s1) h = Some (None, None)) \<and>
                   (case search_find env h f k partial affix affixlen starflags es opts s1 of
                      Inl e \<Rightarrow> True
                    | Inr (y, kb, es', s2) \<Rightarrow>
                        lru_chain s2 (if file_backed env st then h # remove1 h xs1 else xs1) \<and>
                        (file_backed env st \<longrightarrow> open_top s2 = Some h) \<and>
                        open_filecount s2 =
                          int (length (if file_backed env st then h # remove1 h xs1 else xs1))))"
  proof (cases "search_open env fn st mm ow og s")
    case (Inl e) then show ?thesis by simp
  next
    case (Inr p)
    obtain r s1 where p: "p = (r, s1)" by (cases p)
    show ?thesis
    proof (cases r)
      case None
      with Inr p b[of s1] show ?thesis by simp
    next
      case (Some h)
      with Inr p c[of h s1] show ?thesis by (simp only: sum.case prod.case option.case)
    qed
  qed
  from a d show ?thesis by blast
qed

text \<open>
  The claim as stated fails: after the \<open>search_open\<close> of \<open>/a\<close> the count is one and the
  chain is empty; the slot comes to \<open>open_top\<close> with the \<open>search_find\<close>.
\<close>

theorem lru_chain_cardinality_counterexample:
  "file_backed ex_env 1 \<and>
   fst (projr (search_open ex_env (Some ''/a'') 1 0 None None ex_init)) = Some ''1/a'' \<and>
   open_filecount (ex_opened ''/a'' ex_init) = 1 \<and>
   open_top (ex_opened ''/a'' ex_init) = None \<and>
   open_bot (ex_opened ''/a'' ex_init) = None \<and>
   open_top (ex_found ''1/a'' ''/a'' ''foo'' (ex_opened ''/a'' ex_init)) = Some ''1/a''"
  by code_simp

text \<open>
  After the lookups in \<open>/a\<close> and \<open>/b\<close>, through the \<open>search_open\<close> of \<open>/c\<close> and the
  \<open>search_find\<close> on its handle.
\<close>

theorem lru_chain_cardinality_witness:
  "\<exists>xs xs1. lru_chain ex_two xs \<and> int (length xs) = open_filecount ex_two \<and>
     xs1 = butlast xs \<and>
     lru_chain (ex_opened ''/c'' ex_two) xs1 \<and>
     open_filecount (ex_opened ''/c'' ex_two) = int (length xs1) + 1 \<and>
     ''1/c'' \<notin> set xs1 \<and>
     lmap (search_tree (ex_opened ''/c'' ex_two)) ''1/c'' = Some (None, None) \<and>
     lru_chain (ex_found ''1/c'' ''/c'' ''foo'' (ex_opened ''/c'' ex_two)) (''1/c'' # xs1) \<and>
     open_top (ex_found ''1/c'' ''/c'' ''foo'' (ex_opened ''/c'' ex_two)) = Some ''1/c'' \<and>
     open_filecount (ex_found ''1/c'' ''/c'' ''foo'' (ex_opened ''/c'' ex_two)) =
       int (length (''1/c'' # xs1))"
proof -
  have p1: "file_backed ex_env 1" by code_simp
  have p3: "\<not> node_open ex_two ''1/c''" by code_simp
  have p4: "lookup_open_max ex_env \<le> open_filecount ex_two" by code_simp
  note t = lru_chain_cardinality[OF ex_bounds ex_no_lookups_open ex_two_run,
        where fn = "Some ''/c''" and st = 1 and mm = 0 and ow = None and og = None
          and f = "Some ''/c''" and k = "''foo''" and partial = "- 1" and affix = "[]"
          and affixlen = 0 and starflags = 0 and es = None and opts = None,
        unfolded ex_open_c ex_find_c sum.case prod.case option.case
          Eq_TrueI[OF p1] Eq_FalseI[OF p3] Eq_TrueI[OF p4] simp_thms if_True]
  then obtain xs xs1 where a: "lru_chain ex_two xs" "int (length xs) = open_filecount ex_two"
     "xs1 = butlast xs"
     "lru_chain (ex_opened ''/c'' ex_two) xs1"
     "open_filecount (ex_opened ''/c'' ex_two) = int (length xs1) + 1"
     "lmap (search_tree (ex_opened ''/c'' ex_two)) ''1/c'' = Some (None, None)"
     "open_top (ex_found ''1/c'' ''/c'' ''foo'' (ex_opened ''/c'' ex_two)) = Some ''1/c''"
     and n: "''1/c'' \<notin> set xs1"
     and b: "lru_chain (ex_found ''1/c'' ''/c'' ''foo'' (ex_opened ''/c'' ex_two)) (''1/c'' # remove1 ''1/c'' xs1)"
     "open_filecount (ex_found ''1/c'' ''/c'' ''foo'' (ex_opened ''/c'' ex_two))
        = int (length (''1/c'' # remove1 ''1/c'' xs1))"
    by blast
  from n have "remove1 ''1/c'' xs1 = xs1" by (rule remove1_idem)
  with a n b show ?thesis by (simp only:) blast
qed

end
